theory Spec2Isabelle
  imports Complex_Main "HOL-Library.Word"
begin

section \<open>Output dispatcher: \<^verbatim>\<open>src/src/core/consumer/output.cpp\<close>\<close>

text \<open>
  The embedding follows \<^verbatim>\<open>output::impl\<close>. A member \<^verbatim>\<open>x_\<close> of the C++ struct is the
  record field \<open>x_m\<close> (a name cannot end with an underscore here).

  Time points are integers counting microseconds. The registry
  \<^verbatim>\<open>std::map<int, spl::shared_ptr<frame_consumer>>\<close> is an association list; a
  \<^verbatim>\<open>std::map\<close> holds each key once and iterates in ascending key order, which is the
  predicate \<open>registry_ok\<close> below.
\<close>

type_synonym time_point_t = int

text \<open>
  \<^verbatim>\<open>video_format_desc\<close> is declared in \<^verbatim>\<open>video_format.h\<close>, which is not among the sources.
  \<^verbatim>\<open>operator()\<close> reads the members \<^verbatim>\<open>size\<close> and \<^verbatim>\<open>fps\<close> and compares two descriptors with
  \<^verbatim>\<open>!=\<close>; the record has those two members and a tag for the format, and \<^verbatim>\<open>!=\<close> is
  inequality of records. \<^verbatim>\<open>fps\<close> is a \<^verbatim>\<open>double\<close>; it is a rational number here.
\<close>

record video_format_desc =
  format_fd :: nat
  size_fd :: nat
  fps_fd :: rat

text \<open>
  A \<^verbatim>\<open>const_frame\<close> is \<open>None\<close> when it is empty (\<^verbatim>\<open>!input_frame\<close>) and otherwise holds its
  image data, whose length is \<^verbatim>\<open>input_frame.size()\<close>.
\<close>

type_synonym 'px const_frame = "'px list option"

text \<open>
  The result of \<^verbatim>\<open>std::future<bool>::get()\<close>: a value, or the exception stored in the
  future.
\<close>

datatype future_bool = future_value bool | future_exception

text \<open>
  \<^verbatim>\<open>frame_consumer\<close> is an abstract class (\<^verbatim>\<open>frame_consumer.h\<close>, not among the sources). A
  consumer object is a value of type \<open>'c\<close>; the virtual methods are the fields of this
  record, taking the object and returning what it has become. \<open>None\<close> stands for a raised
  exception: \<open>initialize\<close> returns \<open>None\<close> when it throws, \<open>send\<close> returns \<open>None\<close> when
  the call itself throws and otherwise the future it returned.
\<close>

record ('c, 'px, 's) frame_consumer =
  initialize :: "video_format_desc \<Rightarrow> int \<Rightarrow> 'c \<Rightarrow> 'c option"
  send :: "'px const_frame \<Rightarrow> 'c \<Rightarrow> (future_bool \<times> 'c) option"
  state :: "'c \<Rightarrow> 's"
  has_synchronization_clock :: "'c \<Rightarrow> bool"

record ('c, 's) impl =
  state_m :: "string \<rightharpoonup> 's"
  channel_index_m :: int
  format_desc_m :: video_format_desc
  consumers_m :: "(int \<times> 'c) list"
  time_m :: "time_point_t option"

text \<open>
  What one call does to the world outside the struct, in program order: the mutex, the
  calls into consumers, the log and the clock.
\<close>

datatype dispatch_event =
    lock_consumers_mutex
  | unlock_consumers_mutex
  | call_initialize int
  | call_send int
  | future_get int
  | erase_consumer int
  | log_warning
  | log_current_exception
  | clock_now
  | sleep_until time_point_t

text \<open>
  Evaluating \<^verbatim>\<open>static_cast<int>(1e6 / format_desc_.fps)\<close> has no defined result when
  \<^verbatim>\<open>fps\<close> is zero (the quotient is infinite) or when the truncated quotient is not an
  \<^verbatim>\<open>int\<close>.
\<close>

datatype fault = undefined_behaviour

subsection \<open>\<^verbatim>\<open>std::map\<close> operations\<close>

definition registry_ok :: "(int \<times> 'a) list \<Rightarrow> bool" where
  "registry_ok cs = sorted_wrt (<) (map fst cs)"

text \<open>\<^verbatim>\<open>emplace\<close>: inserts at the key's place unless the key is present.\<close>

fun map_emplace :: "int \<Rightarrow> 'a \<Rightarrow> (int \<times> 'a) list \<Rightarrow> (int \<times> 'a) list" where
  "map_emplace k v [] = [(k, v)]"
| "map_emplace k v (p # ps) =
     (if k < fst p then (k, v) # p # ps
      else if k = fst p then p # ps
      else p # map_emplace k v ps)"

text \<open>\<^verbatim>\<open>erase(key)\<close>.\<close>

definition map_erase :: "int \<Rightarrow> (int \<times> 'a) list \<Rightarrow> (int \<times> 'a) list" where
  "map_erase k cs = filter (\<lambda>p. fst p \<noteq> k) cs"

subsection \<open>\<^verbatim>\<open>boost::lexical_cast<std::string>(int)\<close>\<close>

definition digit_char :: "nat \<Rightarrow> char" where
  "digit_char d = ''0123456789'' ! d"

fun digits :: "nat \<Rightarrow> string" where
  "digits n = (if n < 10 then [digit_char n] else digits (n div 10) @ [digit_char (n mod 10)])"

definition lexical_cast :: "int \<Rightarrow> string" where
  "lexical_cast i = (if i < 0 then CHR ''-'' # digits (nat (- i)) else digits (nat i))"

definition port_key :: "int \<Rightarrow> string" where
  "port_key i = ''port/'' @ lexical_cast i"

subsection \<open>\<^verbatim>\<open>add\<close> and \<^verbatim>\<open>remove\<close>\<close>

definition remove :: "int \<Rightarrow> ('c, 's) impl \<Rightarrow> ('c, 's) impl" where
  "remove index s = s\<lparr>consumers_m := map_erase index (consumers_m s)\<rparr>"

text \<open>
  \<^verbatim>\<open>add\<close> removes the index, initializes the consumer outside the lock and registers it.
  When \<open>initialize\<close> throws, the exception leaves \<^verbatim>\<open>add\<close> (\<open>Inl\<close>, with the struct as it is
  then: the index already removed).
\<close>

definition add ::
  "('c, 'px, 's) frame_consumer \<Rightarrow> int \<Rightarrow> 'c \<Rightarrow> ('c, 's) impl \<Rightarrow> ('c, 's) impl + ('c, 's) impl" where
  "add ops index consumer s =
     (let s1 = remove index s in
      case initialize ops (format_desc_m s1) (channel_index_m s1) consumer of
        None \<Rightarrow> Inl s1
      | Some consumer' \<Rightarrow> Inr (s1\<lparr>consumers_m := map_emplace index consumer' (consumers_m s1)\<rparr>))"

subsection \<open>\<^verbatim>\<open>operator()\<close>\<close>

text \<open>
  The loop of lines 101-109: \<open>initialize\<close> on every registered consumer, with the new
  format and the consumer's key; a consumer whose call throws is logged and erased.
  The result is the registry after the loop and the events of the loop.
\<close>

fun initialize_all ::
  "('c, 'px, 's) frame_consumer \<Rightarrow> video_format_desc \<Rightarrow> (int \<times> 'c) list
    \<Rightarrow> (int \<times> 'c) list \<times> dispatch_event list" where
  "initialize_all ops fd [] = ([], [])"
| "initialize_all ops fd (p # ps) =
     (case initialize ops fd (fst p) (snd p) of
        Some c' \<Rightarrow>
          ((fst p, c') # fst (initialize_all ops fd ps),
           call_initialize (fst p) # snd (initialize_all ops fd ps))
      | None \<Rightarrow>
          (fst (initialize_all ops fd ps),
           call_initialize (fst p) # log_current_exception # erase_consumer (fst p)
             # snd (initialize_all ops fd ps)))"

text \<open>
  The loop of lines 123-131. It walks \<^verbatim>\<open>consumers_\<close>, the registry itself (the copy
  \<^verbatim>\<open>consumers\<close> made at lines 115-119 is not read again). The second argument is the
  part of the registry from the iterator on, the third is \<^verbatim>\<open>futures\<close> so far. The result
  is that part of the registry after the loop, \<^verbatim>\<open>futures\<close> and the events.
\<close>

fun send_all ::
  "('c, 'px, 's) frame_consumer \<Rightarrow> 'px const_frame \<Rightarrow> (int \<times> 'c) list
    \<Rightarrow> (int \<times> future_bool) list
    \<Rightarrow> (int \<times> 'c) list \<times> (int \<times> future_bool) list \<times> dispatch_event list" where
  "send_all ops input_frame [] futures = ([], futures, [])"
| "send_all ops input_frame (p # ps) futures =
     (case send ops input_frame (snd p) of
        Some r \<Rightarrow>
          (let rest = send_all ops input_frame ps (map_emplace (fst p) (fst r) futures)
           in ((fst p, snd r) # fst rest, fst (snd rest), call_send (fst p) # snd (snd rest)))
      | None \<Rightarrow>
          (let rest = send_all ops input_frame ps futures
           in (fst rest, fst (snd rest),
               call_send (fst p) # log_current_exception # erase_consumer (fst p)
                 # snd (snd rest))))"

text \<open>
  The loop of lines 133-142 over \<^verbatim>\<open>futures\<close>: each future is awaited in turn, and its
  consumer is erased from the registry when the result is \<^verbatim>\<open>false\<close> or an exception.
\<close>

fun get_all ::
  "(int \<times> future_bool) list \<Rightarrow> (int \<times> 'c) list \<Rightarrow> (int \<times> 'c) list \<times> dispatch_event list" where
  "get_all [] cs = (cs, [])"
| "get_all (p # ps) cs =
     (case snd p of
        future_value b \<Rightarrow>
          (if \<not> b
           then (fst (get_all ps (map_erase (fst p) cs)),
                 future_get (fst p) # erase_consumer (fst p)
                   # snd (get_all ps (map_erase (fst p) cs)))
           else (fst (get_all ps cs), future_get (fst p) # snd (get_all ps cs)))
      | future_exception \<Rightarrow>
          (fst (get_all ps (map_erase (fst p) cs)),
           future_get (fst p) # log_current_exception # erase_consumer (fst p)
             # snd (get_all ps (map_erase (fst p) cs))))"

text \<open>Lines 144-147: \<^verbatim>\<open>state_.clear()\<close>, then one \<^verbatim>\<open>insert_or_assign\<close> per consumer.\<close>

definition collect_state ::
  "('c, 'px, 's) frame_consumer \<Rightarrow> (int \<times> 'c) list \<Rightarrow> (string \<rightharpoonup> 's)" where
  "collect_state ops cs =
     fold (\<lambda>p m. m(port_key (fst p) \<mapsto> state ops (snd p))) cs Map.empty"

text \<open>Lines 149-150: \<^verbatim>\<open>std::all_of\<close> over the registry.\<close>

definition needs_sync :: "('c, 'px, 's) frame_consumer \<Rightarrow> (int \<times> 'c) list \<Rightarrow> bool" where
  "needs_sync ops cs = list_all (\<lambda>p. \<not> has_synchronization_clock ops (snd p)) cs"

text \<open>
  \<^verbatim>\<open>static_cast<int>(x)\<close> truncates towards zero; the result is defined when it is a
  32-bit \<^verbatim>\<open>int\<close>. The quotient \<^verbatim>\<open>1e6 / fps\<close> is taken exactly (the rounding of the
  \<^verbatim>\<open>double\<close> division is not modelled).
\<close>

definition static_cast_int :: "rat \<Rightarrow> int option" where
  "static_cast_int x =
     (let t = (if 0 \<le> x then \<lfloor>x\<rfloor> else \<lceil>x\<rceil>)
      in if - (2 ^ 31) \<le> t \<and> t < 2 ^ 31 then Some t else None)"

definition microseconds_per_frame :: "video_format_desc \<Rightarrow> int option" where
  "microseconds_per_frame fd =
     (if fps_fd fd = 0 then None else static_cast_int (1000000 / fps_fd fd))"

text \<open>
  \<^verbatim>\<open>operator()(input_frame, format_desc)\<close>, the dispatch of one tick. \<open>now\<close> is what
  \<^verbatim>\<open>high_resolution_clock::now()\<close> returns if line 154 reads the clock.

  Line 97, \<^verbatim>\<open>auto time = std::move(time_)\<close>, move-constructs a \<^verbatim>\<open>boost::optional\<close> of a
  time point. The move constructor of \<^verbatim>\<open>boost::optional\<close> leaves its argument engaged
  (its postcondition is \<^verbatim>\<open>bool(rhs) == bool(*this)\<close>), and moving a time point copies it:
  after line 97 the member \<^verbatim>\<open>time_\<close> is what it was, and \<open>time\<close> is a copy of it.
\<close>

definition dispatch ::
  "('c, 'px, 's) frame_consumer \<Rightarrow> 'px const_frame \<Rightarrow> video_format_desc \<Rightarrow> time_point_t
    \<Rightarrow> ('c, 's) impl \<Rightarrow> fault + (('c, 's) impl \<times> dispatch_event list)" where
  "dispatch ops input_frame format_desc now s =
     (case input_frame of
        None \<Rightarrow> Inr (s, [])
      | Some pixels \<Rightarrow>
          if length pixels \<noteq> size_fd (format_desc_m s) then Inr (s, [log_warning])
          else
            let time = time_m s in
            if format_desc_m s \<noteq> format_desc then
              (let r = initialize_all ops format_desc (consumers_m s)
               in Inr (s\<lparr>consumers_m := fst r, format_desc_m := format_desc, time_m := None\<rparr>,
                       [lock_consumers_mutex] @ snd r @ [unlock_consumers_mutex]))
            else
              let consumers = consumers_m s;
                  sent = send_all ops input_frame (consumers_m s) [];
                  got = get_all (fst (snd sent)) (fst sent);
                  s1 = s\<lparr>consumers_m := fst got, state_m := collect_state ops (fst got)\<rparr>;
                  events = [lock_consumers_mutex, unlock_consumers_mutex] @ snd (snd sent) @ snd got
              in
                if needs_sync ops (consumers_m s1) then
                  (case microseconds_per_frame (format_desc_m s1) of
                     None \<Rightarrow> Inl undefined_behaviour
                   | Some period \<Rightarrow>
                       (case time of
                          None \<Rightarrow> Inr (s1\<lparr>time_m := Some (now + period)\<rparr>, events @ [clock_now])
                        | Some t \<Rightarrow> Inr (s1\<lparr>time_m := Some (t + period)\<rparr>, events @ [sleep_until t])))
                else Inr (s1, events))"

text \<open>Readings of an event list.\<close>

fun sends_of :: "dispatch_event list \<Rightarrow> int list" where
  "sends_of [] = []"
| "sends_of (call_send i # es) = i # sends_of es"
| "sends_of (e # es) = sends_of es"


fun initializes_of :: "dispatch_event list \<Rightarrow> int list" where
  "initializes_of [] = []"
| "initializes_of (call_initialize i # es) = i # initializes_of es"
| "initializes_of (e # es) = initializes_of es"

fun erases_of :: "dispatch_event list \<Rightarrow> int list" where
  "erases_of [] = []"
| "erases_of (erase_consumer i # es) = i # erases_of es"
| "erases_of (e # es) = erases_of es"





section \<open>Video decoder: \<^verbatim>\<open>src/modules/ffmpeg/producer/video/video_decoder.cpp\<close>\<close>

text \<open>
  Modelled from the spec: the packets. \<^verbatim>\<open>loop_packet(index)\<close> and \<^verbatim>\<open>eof_packet(index)\<close> are
  declared in \<^verbatim>\<open>util.h\<close>, which is not among the sources; \<^verbatim>\<open>run\<close> compares the received
  packet pointer with them. The spec has two reserved sentinel values per stream index
  beside the data packets, each tagged with its stream index. \<open>'p\<close> is the content of a data
  packet.
\<close>

datatype 'p packet = data_packet int 'p | loop_packet int | eof_packet int

text \<open>\<^verbatim>\<open>packet->stream_index\<close>, which the filter of \<^verbatim>\<open>source_\<close> (line 75) reads.\<close>

fun stream_index :: "'p packet \<Rightarrow> int" where
  "stream_index (data_packet i p) = i"
| "stream_index (loop_packet i) = i"
| "stream_index (eof_packet i) = i"

text \<open>
  What \<^verbatim>\<open>decode(*packet)\<close> hands to the codec: the content of a data packet; a sentinel
  has none.
\<close>

fun payload :: "'p packet \<Rightarrow> 'p option" where
  "payload (data_packet i p) = Some p"
| "payload (loop_packet i) = None"
| "payload (eof_packet i) = None"

text \<open>
  \<^verbatim>\<open>AVFrame\<close>, with the members the file reads. Pointers are addresses (natural numbers);
  the arrays \<^verbatim>\<open>data\<close> and \<^verbatim>\<open>linesize\<close> are functions of the plane number.
\<close>

record AVFrame =
  data :: "nat \<Rightarrow> nat"
  linesize :: "nat \<Rightarrow> int"
  format :: nat
  width :: int
  height :: int
  interlaced_frame :: int
  repeat_pict :: int

text \<open>
  Modelled from the spec: what is sent to \<^verbatim>\<open>target_\<close> is a frame or one of the two sentinel
  frames \<^verbatim>\<open>loop_video()\<close> and \<^verbatim>\<open>eof_video()\<close> (declared in \<^verbatim>\<open>util.h\<close>), the spec's
  \<open>Frame | LoopSignal | EofSignal\<close>.
\<close>

datatype 'f video = frame 'f | loop_video | eof_video

text \<open>
  The state of the allocator behind \<^verbatim>\<open>scalable_aligned_malloc\<close> and
  \<^verbatim>\<open>scalable_aligned_free\<close>: the live blocks, as address and size, in allocation order.
  An allocation is assumed to succeed.
\<close>

type_synonym heap = "(nat \<times> nat) list"

text \<open>
  The \<^verbatim>\<open>safe_ptr<AVFrame>\<close> that \<^verbatim>\<open>dup_frame\<close> returns: the frame object it points to, what
  its deleter captured (\<^verbatim>\<open>org_ptrs\<close>, \<^verbatim>\<open>real_ptrs\<close>, \<^verbatim>\<open>count\<close>; the arrays hold \<^verbatim>\<open>count\<close>
  entries), and the number of holders of the shared pointer.
\<close>

record safe_ptr_AVFrame =
  pointee :: AVFrame
  org_ptrs :: "nat list"
  real_ptrs :: "nat list"
  count :: nat
  use_count :: nat

text \<open>
  What one call of \<^verbatim>\<open>avcodec_decode_video2\<close> yields: its return value, \<^verbatim>\<open>frame_finished\<close>,
  the frame it filled and the codec context after the call.
\<close>

record 'c decode_result =
  ret :: int
  frame_finished :: int
  decoded_frame :: AVFrame
  codec_after :: 'c

text \<open>
  What the file calls and does not define: the codec library (on a codec context \<open>'c\<close>;
  the packet \<open>None\<close> is the flush packet with \<^verbatim>\<open>data = nullptr\<close> and \<^verbatim>\<open>size = 0\<close>),
  \<^verbatim>\<open>codec->capabilities & CODEC_CAP_DELAY\<close>, the plane heights of
  \<^verbatim>\<open>get_pixel_format_desc(format, width, height).planes\<close>, the width of \<^verbatim>\<open>size_t\<close>, the
  allocator (from the live blocks, a size and an alignment to an address), the address
  that \<^verbatim>\<open>fast_memcpy_w_align_hack(dest, src, size)\<close> returns, and the default-constructed
  ticket \<^verbatim>\<open>ticket_t()\<close>. \<^verbatim>\<open>org_ptrs\<close> and \<^verbatim>\<open>real_ptrs\<close> are arrays of 4 in the source: the
  pixel format is assumed to have at most 4 planes.
\<close>

record ('c, 'p, 't) ffmpeg =
  avcodec_decode_video2 :: "'c \<Rightarrow> 'p option \<Rightarrow> 'c decode_result"
  avcodec_flush_buffers :: "'c \<Rightarrow> 'c"
  has_CODEC_CAP_DELAY :: "'c \<Rightarrow> bool"
  get_pixel_format_desc :: "nat \<Rightarrow> int \<Rightarrow> int \<Rightarrow> nat list"
  size_t_bits :: nat
  scalable_aligned_malloc :: "heap \<Rightarrow> nat \<Rightarrow> nat \<Rightarrow> nat"
  fast_memcpy_w_align_hack :: "nat \<Rightarrow> nat \<Rightarrow> nat \<Rightarrow> nat"
  ticket_t :: 't

text \<open>
  What the agent does to the world, in program order: calls of the codec, sends to
  \<^verbatim>\<open>target_\<close>, log lines, \<^verbatim>\<open>Context::Yield()\<close> and \<^verbatim>\<open>done()\<close>.
\<close>

datatype ('p, 't) worker_event =
    decode_video2 "'p option"
  | flush_buffers
  | send_target "safe_ptr_AVFrame video \<times> 't"
  | log_repeat_pict
  | log_exception
  | yield
  | agent_done

text \<open>
  \<^verbatim>\<open>video_decoder::implementation\<close>: the members that \<^verbatim>\<open>run\<close> reads or writes (a member
  \<^verbatim>\<open>x_\<close> is the field \<open>x_m\<close>), the allocator state and the events so far.
\<close>

record ('c, 'p, 't) implementation =
  index_m :: int
  codec_context_m :: 'c
  is_progressive_m :: bool
  allocator :: heap
  events :: "('p, 't) worker_event list"

text \<open>
  How one pass through the body of \<^verbatim>\<open>while(true)\<close> ends: at the next \<^verbatim>\<open>receive\<close>
  (\<^verbatim>\<open>continue\<close> or the end of the body), at \<^verbatim>\<open>break\<close>, or with an exception thrown.
\<close>

datatype 'a loop_result = continue_loop 'a | break_loop 'a | thrown 'a

fun state_of :: "'a loop_result \<Rightarrow> 'a" where
  "state_of (continue_loop s) = s"
| "state_of (break_loop s) = s"
| "state_of (thrown s) = s"

text \<open>
  Modelled from the spec: \<^verbatim>\<open>THROW_ON_ERROR2\<close> (\<^verbatim>\<open>ffmpeg_error.h\<close>, not among the sources)
  throws when the codec reports a failure, a negative return value.
\<close>

datatype ffmpeg_error = ffmpeg_error

text \<open>\<^verbatim>\<open>decode\<close>, lines 93-112.\<close>

definition decode ::
  "('c, 'p, 't) ffmpeg \<Rightarrow> 'p option \<Rightarrow> ('c, 'p, 't) implementation
    \<Rightarrow> (ffmpeg_error + AVFrame option) \<times> ('c, 'p, 't) implementation" where
  "decode lib packet st =
     (let r = avcodec_decode_video2 lib (codec_context_m st) packet;
          st1 = st\<lparr>codec_context_m := codec_after r, events := events st @ [decode_video2 packet]\<rparr>
      in if ret r < 0 then (Inl ffmpeg_error, st1)
         else if frame_finished r = 0 then (Inr None, st1)
         else if repeat_pict (decoded_frame r) > 0
           then (Inr (Some (decoded_frame r)), st1\<lparr>events := events st1 @ [log_repeat_pict]\<rparr>)
           else (Inr (Some (decoded_frame r)), st1))"

text \<open>
  Arithmetic in \<^verbatim>\<open>size_t\<close>: \<^verbatim>\<open>frame->linesize[n] * desc.planes[n].height\<close> converts the
  \<^verbatim>\<open>int\<close> to \<^verbatim>\<open>size_t\<close> and multiplies modulo \<open>2 ^ size_t_bits\<close>.
\<close>

definition size_t_of_int :: "('c, 'p, 't) ffmpeg \<Rightarrow> int \<Rightarrow> nat" where
  "size_t_of_int lib i = nat (i mod 2 ^ size_t_bits lib)"

definition size_t_mul :: "('c, 'p, 't) ffmpeg \<Rightarrow> nat \<Rightarrow> nat \<Rightarrow> nat" where
  "size_t_mul lib a b = (a * b) mod 2 ^ size_t_bits lib"

definition size_t_add :: "('c, 'p, 't) ffmpeg \<Rightarrow> nat \<Rightarrow> nat \<Rightarrow> nat" where
  "size_t_add lib a b = (a + b) mod 2 ^ size_t_bits lib"

text \<open>
  The body of the \<^verbatim>\<open>parallel_for\<close> of \<^verbatim>\<open>dup_frame\<close> for plane \<open>n\<close> (lines 178-181). The
  planes are taken in ascending order.
\<close>

definition dup_plane ::
  "('c, 'p, 't) ffmpeg \<Rightarrow> nat \<Rightarrow> nat \<Rightarrow> safe_ptr_AVFrame \<times> heap
    \<Rightarrow> safe_ptr_AVFrame \<times> heap" where
  "dup_plane lib plane_height n ph =
     (let p = fst ph;
          h = snd ph;
          size = size_t_mul lib (size_t_of_int lib (linesize (pointee p) n)) plane_height;
          org = data (pointee p) n;
          real = scalable_aligned_malloc lib h (size_t_add lib size 16) 32
      in (p\<lparr>pointee := (pointee p)\<lparr>data := (data (pointee p))
                (n := fast_memcpy_w_align_hack lib real org size)\<rparr>,
            org_ptrs := org_ptrs p @ [org],
            real_ptrs := real_ptrs p @ [real]\<rparr>,
          h @ [(real, size_t_add lib size 16)]))"

fun dup_planes ::
  "('c, 'p, 't) ffmpeg \<Rightarrow> nat list \<Rightarrow> nat \<Rightarrow> safe_ptr_AVFrame \<times> heap
    \<Rightarrow> safe_ptr_AVFrame \<times> heap" where
  "dup_planes lib [] n ph = ph"
| "dup_planes lib (plane_height # planes) n ph =
     dup_planes lib planes (Suc n) (dup_plane lib plane_height n ph)"

text \<open>
  \<^verbatim>\<open>dup_frame\<close>, lines 169-192: the returned pointer refers to the same frame object, now
  pointing to the copies, and has one holder.
\<close>

definition dup_frame ::
  "('c, 'p, 't) ffmpeg \<Rightarrow> AVFrame \<Rightarrow> heap \<Rightarrow> safe_ptr_AVFrame \<times> heap" where
  "dup_frame lib fr h =
     (let planes = get_pixel_format_desc lib (format fr) (width fr) (height fr)
      in dup_planes lib planes 0
           (\<lparr>pointee = fr, org_ptrs = [], real_ptrs = [], count = length planes, use_count = 1\<rparr>, h))"

text \<open>\<^verbatim>\<open>scalable_aligned_free\<close> of an address that is not a live block.\<close>

datatype heap_fault = invalid_free nat

text \<open>
  The deleter of lines 184-191: for each plane, free the copy and put the original
  pointer back into the frame.
\<close>

fun release_planes ::
  "(nat \<times> nat) list \<Rightarrow> nat \<Rightarrow> AVFrame \<times> heap \<Rightarrow> heap_fault + AVFrame \<times> heap" where
  "release_planes [] n fh = Inr fh"
| "release_planes (ro # ros) n fh =
     (if fst ro \<in> fst ` set (snd fh)
      then release_planes ros (Suc n)
             ((fst fh)\<lparr>data := (data (fst fh))(n := snd ro)\<rparr>,
              filter (\<lambda>b. fst b \<noteq> fst ro) (snd fh))
      else Inl (invalid_free (fst ro)))"

definition deleter :: "safe_ptr_AVFrame \<Rightarrow> heap \<Rightarrow> heap_fault + AVFrame \<times> heap" where
  "deleter p h =
     release_planes (take (count p) (zip (real_ptrs p) (org_ptrs p))) 0 (pointee p, h)"

text \<open>
  A shared pointer counts its holders: a copy adds one, a release takes one away and the
  last release runs the deleter (\<^verbatim>\<open>std::shared_ptr\<close>, on which \<^verbatim>\<open>safe_ptr\<close> is built).
\<close>

definition copy_ptr :: "safe_ptr_AVFrame \<Rightarrow> safe_ptr_AVFrame" where
  "copy_ptr p = p\<lparr>use_count := Suc (use_count p)\<rparr>"

definition release_ptr ::
  "safe_ptr_AVFrame \<Rightarrow> heap \<Rightarrow> heap_fault + safe_ptr_AVFrame \<times> heap" where
  "release_ptr p h =
     (if use_count p = Suc 0
      then (case deleter p h of
              Inl e \<Rightarrow> Inl e
            | Inr r \<Rightarrow> Inr (p\<lparr>pointee := fst r, use_count := 0\<rparr>, snd r))
      else Inr (p\<lparr>use_count := use_count p - 1\<rparr>, h))"

text \<open>
  \<^verbatim>\<open>send(target_, target_element_t(dup_frame(...), element.second)); Context::Yield();\<close>
  (lines 134-135 and 155-156).
\<close>

definition emit_frame ::
  "('c, 'p, 't) ffmpeg \<Rightarrow> AVFrame \<Rightarrow> 't \<Rightarrow> ('c, 'p, 't) implementation
    \<Rightarrow> ('c, 'p, 't) implementation" where
  "emit_frame lib fr ticket st =
     (let d = dup_frame lib fr (allocator st)
      in st\<lparr>allocator := snd d,
            events := events st @ [send_target (frame (fst d), ticket), yield]\<rparr>)"

text \<open>
  The \<^verbatim>\<open>for\<close> loop of lines 132-136: decode the flush packet until no frame comes back.
  The loop need not end; \<open>None\<close> is a loop that runs forever.
\<close>

partial_function (option) flush_frames ::
  "('c, 'p, 't) ffmpeg \<Rightarrow> 't \<Rightarrow> ('c, 'p, 't) implementation
    \<Rightarrow> ('c, 'p, 't) implementation loop_result option" where
  "flush_frames lib ticket st =
     (case fst (decode lib None st) of
        Inl e \<Rightarrow> Some (thrown (snd (decode lib None st)))
      | Inr None \<Rightarrow> Some (continue_loop (snd (decode lib None st)))
      | Inr (Some fr) \<Rightarrow> flush_frames lib ticket (emit_frame lib fr ticket (snd (decode lib None st))))"

text \<open>
  Lines 123-142, the loop packet. Line 140 sends \<^verbatim>\<open>loop_video()\<close> with \<^verbatim>\<open>ticket_t()\<close>, not
  with \<^verbatim>\<open>element.second\<close>.
\<close>

definition on_loop_packet ::
  "('c, 'p, 't) ffmpeg \<Rightarrow> 't \<Rightarrow> ('c, 'p, 't) implementation
    \<Rightarrow> ('c, 'p, 't) implementation loop_result option" where
  "on_loop_packet lib ticket st =
     (case (if has_CODEC_CAP_DELAY lib (codec_context_m st) then flush_frames lib ticket st
            else Some (continue_loop st)) of
        None \<Rightarrow> None
      | Some (continue_loop st1) \<Rightarrow>
          Some (continue_loop
            (st1\<lparr>codec_context_m := avcodec_flush_buffers lib (codec_context_m st1),
                 events := events st1 @ [flush_buffers, send_target (loop_video, ticket_t lib)]\<rparr>))
      | Some r \<Rightarrow> Some r)"

text \<open>Lines 147-156, any other packet.\<close>

definition on_data_packet ::
  "('c, 'p, 't) ffmpeg \<Rightarrow> 'p option \<Rightarrow> 't \<Rightarrow> ('c, 'p, 't) implementation
    \<Rightarrow> ('c, 'p, 't) implementation loop_result" where
  "on_data_packet lib pkt ticket st =
     (case fst (decode lib pkt st) of
        Inl e \<Rightarrow> thrown (snd (decode lib pkt st))
      | Inr None \<Rightarrow> continue_loop (snd (decode lib pkt st))
      | Inr (Some fr) \<Rightarrow>
          continue_loop (emit_frame lib fr ticket
            ((snd (decode lib pkt st))\<lparr>is_progressive_m := (interlaced_frame fr = 0)\<rparr>)))"

text \<open>One pass through the body of \<^verbatim>\<open>while(true)\<close> for a received element.\<close>

definition iteration ::
  "('c, 'p, 't) ffmpeg \<Rightarrow> 'p packet \<times> 't \<Rightarrow> ('c, 'p, 't) implementation
    \<Rightarrow> ('c, 'p, 't) implementation loop_result option" where
  "iteration lib element st =
     (let packet = fst element
      in if packet = loop_packet (index_m st) then on_loop_packet lib (snd element) st
         else if packet = eof_packet (index_m st) then Some (break_loop st)
         else Some (on_data_packet lib (payload packet) (snd element) st))"

text \<open>
  The loop of lines 118-157 over the elements offered to \<^verbatim>\<open>source_\<close>, whose filter passes
  the packets of this stream. When the elements are used up, \<^verbatim>\<open>receive\<close> blocks: the result
  is \<open>continue_loop\<close>, the agent still in the loop.
\<close>

fun run_loop ::
  "('c, 'p, 't) ffmpeg \<Rightarrow> ('p packet \<times> 't) list \<Rightarrow> ('c, 'p, 't) implementation
    \<Rightarrow> ('c, 'p, 't) implementation loop_result option" where
  "run_loop lib [] st = Some (continue_loop st)"
| "run_loop lib (element # elements) st =
     (if stream_index (fst element) \<noteq> index_m st then run_loop lib elements st
      else case iteration lib element st of
             None \<Rightarrow> None
           | Some (continue_loop st1) \<Rightarrow> run_loop lib elements st1
           | Some r \<Rightarrow> Some r)"

text \<open>The agent is still receiving, or \<^verbatim>\<open>run\<close> has returned.\<close>

datatype 'a agent_status = receiving 'a | finished 'a

text \<open>
  \<^verbatim>\<open>run\<close>, lines 114-167: the loop inside \<^verbatim>\<open>try\<close>, \<^verbatim>\<open>catch(...)\<close> logging the exception,
  then the \<^verbatim>\<open>eof_video()\<close> element with \<^verbatim>\<open>ticket_t()\<close>, then \<^verbatim>\<open>done()\<close>.
\<close>

definition run ::
  "('c, 'p, 't) ffmpeg \<Rightarrow> ('p packet \<times> 't) list \<Rightarrow> ('c, 'p, 't) implementation
    \<Rightarrow> ('c, 'p, 't) implementation agent_status option" where
  "run lib elements st =
     (case run_loop lib elements st of
        None \<Rightarrow> None
      | Some (continue_loop st1) \<Rightarrow> Some (receiving st1)
      | Some (break_loop st1) \<Rightarrow>
          Some (finished (st1\<lparr>events := events st1
                 @ [send_target (eof_video, ticket_t lib), agent_done]\<rparr>))
      | Some (thrown st1) \<Rightarrow>
          Some (finished (st1\<lparr>events := events st1
                 @ [log_exception, send_target (eof_video, ticket_t lib), agent_done]\<rparr>)))"

text \<open>The elements sent to \<^verbatim>\<open>target_\<close>, in order.\<close>

fun sent_to_target :: "('p, 't) worker_event list \<Rightarrow> (safe_ptr_AVFrame video \<times> 't) list" where
  "sent_to_target [] = []"
| "sent_to_target (send_target e # evs) = e # sent_to_target evs"
| "sent_to_target (ev # evs) = sent_to_target evs"

text \<open>
  \<open>is_flush_events ticket evs\<close>: \<open>evs\<close> is a run of flush decodes, each but the last followed
  by the send of a frame with \<open>ticket\<close> and a yield (a warning may be logged in between).
\<close>

fun is_flush_events :: "'t \<Rightarrow> ('p, 't) worker_event list \<Rightarrow> bool" where
  "is_flush_events tk [decode_video2 None] = True"
| "is_flush_events tk (decode_video2 None # send_target (frame d, tk') # yield # evs) =
     (tk' = tk \<and> is_flush_events tk evs)"
| "is_flush_events tk (decode_video2 None # log_repeat_pict # send_target (frame d, tk') # yield # evs) =
     (tk' = tk \<and> is_flush_events tk evs)"
| "is_flush_events tk evs = False"


subsection \<open>Definitions used in the statements and proofs about the dispatcher\<close>

text \<open>The registry after the send loop: the consumers whose send returned, as send left them.\<close>

definition sent_consumers ::
  "('c, 'px, 's) frame_consumer \<Rightarrow> 'px const_frame \<Rightarrow> (int \<times> 'c) list \<Rightarrow> (int \<times> 'c) list" where
  "sent_consumers ops f cs =
     List.map_filter (\<lambda>p. map_option (\<lambda>r. (fst p, snd r)) (send ops f (snd p))) cs"

text \<open>The map of futures after the send loop.\<close>

definition sent_futures ::
  "('c, 'px, 's) frame_consumer \<Rightarrow> 'px const_frame \<Rightarrow> (int \<times> 'c) list \<Rightarrow> (int \<times> future_bool) list" where
  "sent_futures ops f cs =
     List.map_filter (\<lambda>p. map_option (\<lambda>r. (fst p, fst r)) (send ops f (snd p))) cs"

text \<open>The value of a decimal digit.\<close>

definition digit_value :: "char \<Rightarrow> nat" where
  "digit_value c = of_char c - 48"

text \<open>The registry after the send loop and the await loop.\<close>

definition survivors ::
  "('c, 'px, 's) frame_consumer \<Rightarrow> 'px const_frame \<Rightarrow> (int \<times> 'c) list \<Rightarrow> (int \<times> 'c) list" where
  "survivors ops f cs = fst (get_all (fst (snd (send_all ops f cs []))) (fst (send_all ops f cs [])))"

text \<open>The events of a delivery tick before the pacing step.\<close>

definition delivery_events ::
  "('c, 'px, 's) frame_consumer \<Rightarrow> 'px const_frame \<Rightarrow> (int \<times> 'c) list \<Rightarrow> dispatch_event list" where
  "delivery_events ops f cs =
     [lock_consumers_mutex, unlock_consumers_mutex] @ snd (snd (send_all ops f cs []))
       @ snd (get_all (fst (snd (send_all ops f cs []))) (fst (send_all ops f cs [])))"

text \<open>The event of the pacing step: the clock is read when no deadline is stored, otherwise the thread sleeps until the stored deadline.\<close>

definition pacing_event :: "time_point_t option \<Rightarrow> dispatch_event" where
  "pacing_event time = (case time of None \<Rightarrow> clock_now | Some t \<Rightarrow> sleep_until t)"

text \<open>The deadline the next one is computed from.\<close>

definition previous_deadline :: "time_point_t option \<Rightarrow> time_point_t \<Rightarrow> time_point_t" where
  "previous_deadline time now = (case time of None \<Rightarrow> now | Some t \<Rightarrow> t)"




text \<open>Sample consumers for the closed examples: a consumer is a kind and the number of frames it has accepted, which is also its diagnostic state.\<close>

datatype demo_kind = accepts | refuses | send_throws | future_throws | initialize_throws | clocked

definition demo_ops :: "(demo_kind \<times> nat, nat, nat) frame_consumer" where
  "demo_ops =
     \<lparr>initialize = (\<lambda>fd i c. if fst c = initialize_throws then None else Some (fst c, 0)),
      send = (\<lambda>f c. case fst c of
                 send_throws \<Rightarrow> None
               | refuses \<Rightarrow> Some (future_value False, c)
               | future_throws \<Rightarrow> Some (future_exception, c)
               | _ \<Rightarrow> Some (future_value True, (fst c, Suc (snd c)))),
      state = snd,
      has_synchronization_clock = (\<lambda>c. fst c = clocked)\<rparr>"

text \<open>Sample formats: two of 4 bytes per frame, at 50 and at 25 frames per second, and one of 8 bytes.\<close>

definition demo_format_50 :: video_format_desc where
  "demo_format_50 = \<lparr>format_fd = 1, size_fd = 4, fps_fd = 50\<rparr>"

definition demo_format_25 :: video_format_desc where
  "demo_format_25 = \<lparr>format_fd = 2, size_fd = 4, fps_fd = 25\<rparr>"

definition demo_format_big :: video_format_desc where
  "demo_format_big = \<lparr>format_fd = 3, size_fd = 8, fps_fd = 50\<rparr>"

text \<open>A sample dispatcher with format demo_format_50, the given registry and the given deadline.\<close>

definition demo_impl ::
  "(int \<times> demo_kind \<times> nat) list \<Rightarrow> time_point_t option \<Rightarrow> (demo_kind \<times> nat, nat) impl" where
  "demo_impl cs t =
     \<lparr>state_m = Map.empty, channel_index_m = 1, format_desc_m = demo_format_50,
      consumers_m = cs, time_m = t\<rparr>"


subsection \<open>Definitions used in the statements and proofs about the decoder\<close>


text \<open>The sizes of the blocks allocated for the planes from plane n on: the size_t product of linesize and plane height, plus 16.\<close>

definition plane_sizes ::
  "('c, 'p, 't) ffmpeg \<Rightarrow> AVFrame \<Rightarrow> nat \<Rightarrow> nat list \<Rightarrow> nat list" where
  "plane_sizes lib fr n planes =
     map (\<lambda>k. size_t_add lib
             (size_t_mul lib (size_t_of_int lib (linesize fr (n + k))) (planes ! k)) 16)
       [0..<length planes]"

text \<open>The plane pointers after the deleter has walked the given pairs of copy and original, from plane n on.\<close>

fun restore :: "(nat \<times> nat) list \<Rightarrow> nat \<Rightarrow> (nat \<Rightarrow> nat) \<Rightarrow> nat \<Rightarrow> nat" where
  "restore [] n d = d"
| "restore (ro # ros) n d = restore ros (Suc n) (d(n := snd ro))"

text \<open>A sample decoded frame: three planes, 8 bytes per line.\<close>

definition demo_frame :: AVFrame where
  "demo_frame =
     \<lparr>data = (\<lambda>n. 1000 * Suc n), linesize = (\<lambda>n. 8), format = 0, width = 8, height = 2,
      interlaced_frame = 1, repeat_pict = 0\<rparr>"

text \<open>A sample codec whose context is the number of frames it holds back. Packet 0 makes it fail; any other packet is stored when nothing is held, otherwise a frame comes out. A flush packet gives one held frame back.\<close>

definition demo_decode :: "nat \<Rightarrow> nat option \<Rightarrow> nat decode_result" where
  "demo_decode c pkt =
     (case pkt of
        Some p \<Rightarrow>
          if p = 0 then \<lparr>ret = - 1, frame_finished = 0, decoded_frame = demo_frame, codec_after = c\<rparr>
          else if c = 0
            then \<lparr>ret = int p, frame_finished = 0, decoded_frame = demo_frame, codec_after = 1\<rparr>
            else \<lparr>ret = int p, frame_finished = 1, decoded_frame = demo_frame, codec_after = c\<rparr>
      | None \<Rightarrow>
          if c = 0 then \<lparr>ret = 0, frame_finished = 0, decoded_frame = demo_frame, codec_after = 0\<rparr>
          else \<lparr>ret = 0, frame_finished = 1, decoded_frame = demo_frame, codec_after = c - 1\<rparr>)"

text \<open>A sample allocator: the first multiple of 32 beyond every live block.\<close>

definition demo_malloc :: "heap \<Rightarrow> nat \<Rightarrow> nat \<Rightarrow> nat" where
  "demo_malloc h sz al = 32 * Suc (fold max (map (\<lambda>b. (fst b + snd b) div 32) h) 0)"

definition demo_lib :: "(nat, nat, nat) ffmpeg" where
  "demo_lib =
     \<lparr>avcodec_decode_video2 = demo_decode,
      avcodec_flush_buffers = (\<lambda>c. 0),
      has_CODEC_CAP_DELAY = (\<lambda>c. True),
      get_pixel_format_desc = (\<lambda>f w h. [nat h, nat h div 2, nat h div 2]),
      size_t_bits = 32,
      scalable_aligned_malloc = demo_malloc,
      fast_memcpy_w_align_hack = (\<lambda>dest src sz. dest + src mod 16),
      ticket_t = 0\<rparr>"

text \<open>A sample agent for stream 0 with the given codec context, an empty heap and no events.\<close>

definition demo_worker :: "nat \<Rightarrow> (nat, nat, nat) implementation" where
  "demo_worker c =
     \<lparr>index_m = 0, codec_context_m = c, is_progressive_m = True, allocator = [], events = []\<rparr>"

text \<open>An element sent to the target with the frame left out, for the closed examples.\<close>

definition shape :: "'f video \<Rightarrow> unit video" where
  "shape v = map_video (\<lambda>f. ()) v"

definition sent_shapes :: "('p, 't) worker_event list \<Rightarrow> (unit video \<times> 't) list" where
  "sent_shapes evs = map (\<lambda>e. (shape (fst e), snd e)) (sent_to_target evs)"

text \<open>The state in which run has returned, if it has.\<close>

fun finished_state :: "'a agent_status option \<Rightarrow> 'a option" where
  "finished_state (Some (finished s)) = Some s"
| "finished_state r = None"

text \<open>The state at the next receive, if the pass ended there.\<close>

fun continued_state :: "'a loop_result option \<Rightarrow> 'a option" where
  "continued_state (Some (continue_loop s)) = Some s"
| "continued_state r = None"

text \<open>The state in which the pass ended with an exception, if it did.\<close>

fun thrown_state :: "'a loop_result option \<Rightarrow> 'a option" where
  "thrown_state (Some (thrown s)) = Some s"
| "thrown_state r = None"

text \<open>The frames among the elements sent.\<close>

fun frames_of :: "(safe_ptr_AVFrame video \<times> 't) list \<Rightarrow> safe_ptr_AVFrame list" where
  "frames_of [] = []"
| "frames_of ((frame d, tk) # es) = d # frames_of es"
| "frames_of (e # es) = frames_of es"

text \<open>A flush decode on the codec context c succeeds and returns a frame.\<close>

definition returns_frame :: "('c, 'p, 't) ffmpeg \<Rightarrow> 'c \<Rightarrow> bool" where
  "returns_frame lib c \<longleftrightarrow>
     0 \<le> ret (avcodec_decode_video2 lib c None)
     \<and> frame_finished (avcodec_decode_video2 lib c None) \<noteq> 0"

text \<open>The codec context after n flush decodes.\<close>

fun after_flushes :: "('c, 'p, 't) ffmpeg \<Rightarrow> nat \<Rightarrow> 'c \<Rightarrow> 'c" where
  "after_flushes lib 0 c = c"
| "after_flushes lib (Suc n) c =
     after_flushes lib n (codec_after (avcodec_decode_video2 lib c None))"

text \<open>The frames ds are what a flush from codec context c and heap h gives: for each of them in turn the flush decode returns a frame and the element of ds is dup_frame of that frame on the heap as it then is; one more flush decode returns no frame, or fails when failed is set; c' and h' are the codec context and the heap after it.\<close>

fun flushed ::
  "('c, 'p, 't) ffmpeg \<Rightarrow> 'c \<Rightarrow> heap \<Rightarrow> safe_ptr_AVFrame list \<Rightarrow> bool \<Rightarrow> 'c \<Rightarrow> heap
    \<Rightarrow> bool" where
  "flushed lib c h [] failed c' h' =
     ((if failed then ret (avcodec_decode_video2 lib c None) < 0
       else 0 \<le> ret (avcodec_decode_video2 lib c None)
            \<and> frame_finished (avcodec_decode_video2 lib c None) = 0)
      \<and> c' = codec_after (avcodec_decode_video2 lib c None) \<and> h' = h)"
| "flushed lib c h (d # ds) failed c' h' =
     (returns_frame lib c
      \<and> d = fst (dup_frame lib (decoded_frame (avcodec_decode_video2 lib c None)) h)
      \<and> flushed lib (codec_after (avcodec_decode_video2 lib c None))
          (snd (dup_frame lib (decoded_frame (avcodec_decode_video2 lib c None)) h))
          ds failed c' h')"

text \<open>A sample library whose codec is the sample codec, except that the flush decode fails once no frame is held back.\<close>

definition demo_broken_lib :: "(nat, nat, nat) ffmpeg" where
  "demo_broken_lib =
     demo_lib\<lparr>avcodec_decode_video2 :=
       (\<lambda>c pkt. if pkt = None \<and> c = 0
          then \<lparr>ret = - 1, frame_finished = 0, decoded_frame = demo_frame, codec_after = 0\<rparr>
          else demo_decode c pkt)\<rparr>"



section \<open>The output dispatcher: lemmas and claims\<close>

lemma map_emplace_append:
  "\<forall>x\<in>set xs. fst x < k \<Longrightarrow> map_emplace k v xs = xs @ [(k, v)]"
  by (induction xs) auto

lemma sent_consumers_simps:
  "sent_consumers ops f [] = []"
  "sent_consumers ops f (p # ps) =
     (case send ops f (snd p) of None \<Rightarrow> sent_consumers ops f ps
      | Some r \<Rightarrow> (fst p, snd r) # sent_consumers ops f ps)"
  by (auto simp: sent_consumers_def List.map_filter_simps split: option.splits)

lemma sent_futures_simps:
  "sent_futures ops f [] = []"
  "sent_futures ops f (p # ps) =
     (case send ops f (snd p) of None \<Rightarrow> sent_futures ops f ps
      | Some r \<Rightarrow> (fst p, fst r) # sent_futures ops f ps)"
  by (auto simp: sent_futures_def List.map_filter_simps split: option.splits)

lemma send_all_consumers: "fst (send_all ops f cs futs) = sent_consumers ops f cs"
  by (induction cs arbitrary: futs) (auto simp: sent_consumers_simps Let_def split: option.splits)

lemma send_all_futures:
  "sorted_wrt (<) (map fst futs @ map fst cs)
    \<Longrightarrow> fst (snd (send_all ops f cs futs)) = futs @ sent_futures ops f cs"
proof (induction cs arbitrary: futs)
  case Nil
  then show ?case by (simp add: sent_futures_simps)
next
  case (Cons p ps)
  show ?case
  proof (cases "send ops f (snd p)")
    case None
    from Cons.prems have "sorted_wrt (<) (map fst futs @ map fst ps)"
      by (auto simp: sorted_wrt_append)
    with Cons.IH None show ?thesis by (simp add: sent_futures_simps Let_def)
  next
    case (Some r)
    from Cons.prems have lt: "\<forall>x\<in>set futs. fst x < fst p"
      by (auto simp: sorted_wrt_append)
    then have e: "map_emplace (fst p) (fst r) futs = futs @ [(fst p, fst r)]"
      by (rule map_emplace_append)
    from Cons.prems have "sorted_wrt (<) (map fst (futs @ [(fst p, fst r)]) @ map fst ps)"
      by (auto simp: sorted_wrt_append)
    from Cons.IH [OF this] Some e show ?thesis by (simp add: sent_futures_simps Let_def)
  qed
qed




lemma get_all_consumers:
  "fst (get_all fs cs) = filter (\<lambda>p. \<forall>fut. (fst p, fut) \<in> set fs \<longrightarrow> fut = future_value True) cs"
proof (induction fs arbitrary: cs)
  case Nil
  then show ?case by simp
next
  case (Cons q qs)
  show ?case
    by (cases q; cases "snd q") (auto simp: Cons.IH map_erase_def intro!: filter_cong)
qed




lemma digit_value_digit_char: "d < 10 \<Longrightarrow> digit_value (digit_char d) = d"
proof -
  assume "d < 10"
  then consider "d = 0" | "d = 1" | "d = 2" | "d = 3" | "d = 4" | "d = 5" | "d = 6" | "d = 7"
    | "d = 8" | "d = 9"
    by atomize_elim arith
  then show ?thesis
    by cases (simp_all add: digit_value_def digit_char_def)
qed

lemma digit_char_not_minus: "d < 10 \<Longrightarrow> digit_char d \<noteq> CHR ''-''"
proof -
  assume "d < 10"
  then consider "d = 0" | "d = 1" | "d = 2" | "d = 3" | "d = 4" | "d = 5" | "d = 6" | "d = 7"
    | "d = 8" | "d = 9"
    by atomize_elim arith
  then show ?thesis
    by cases (simp_all add: digit_char_def)
qed

declare digits.simps [simp del]

lemma digits_value: "foldl (\<lambda>a c. 10 * a + digit_value c) 0 (digits n) = n"
proof (induction n rule: digits.induct)
  case (1 n)
  show ?case
  proof (cases "n < 10")
    case True
    then show ?thesis by (subst digits.simps) (simp add: digit_value_digit_char)
  next
    case False
    with 1 show ?thesis by (subst digits.simps) (simp add: digit_value_digit_char)
  qed
qed

lemma digits_inj: "digits a = digits b \<Longrightarrow> a = b"
  by (metis digits_value)

lemma digits_hd: "\<exists>d cs. d < 10 \<and> digits n = digit_char d # cs"
proof (induction n rule: digits.induct)
  case (1 n)
  show ?case
  proof (cases "n < 10")
    case True
    then show ?thesis by (subst digits.simps) auto
  next
    case False
    with 1 obtain d cs where "d < 10" "digits (n div 10) = digit_char d # cs" by blast
    with False show ?thesis by (subst digits.simps) auto
  qed
qed

lemma digits_not_minus: "digits n \<noteq> CHR ''-'' # cs"
proof
  assume a: "digits n = CHR ''-'' # cs"
  obtain d ds where d: "d < 10" "digits n = digit_char d # ds"
    using digits_hd [of n] by blast
  with a have "digit_char d = CHR ''-''" by simp
  with d(1) show False by (simp add: digit_char_not_minus)
qed

lemma lexical_cast_inj: "lexical_cast i = lexical_cast j \<Longrightarrow> i = j"
  unfolding lexical_cast_def
  by (auto split: if_splits dest: digits_inj simp: digits_not_minus digits_not_minus [symmetric])

lemma port_key_inj: "port_key i = port_key j \<longleftrightarrow> i = j"
  by (auto simp: port_key_def dest: lexical_cast_inj)

lemma fold_state_other:
  "k \<notin> port_key ` fst ` set cs
    \<Longrightarrow> fold (\<lambda>p m. m(port_key (fst p) \<mapsto> state ops (snd p))) cs m0 k = m0 k"
  by (induction cs arbitrary: m0) auto

lemma fold_state_dom:
  "dom (fold (\<lambda>p m. m(port_key (fst p) \<mapsto> state ops (snd p))) cs m0)
     = dom m0 \<union> port_key ` fst ` set cs"
  by (induction cs arbitrary: m0) auto

lemma fold_state_value:
  "distinct (map fst cs) \<Longrightarrow> (i, c) \<in> set cs
    \<Longrightarrow> fold (\<lambda>p m. m(port_key (fst p) \<mapsto> state ops (snd p))) cs m0 (port_key i)
         = Some (state ops c)"
proof (induction cs arbitrary: m0)
  case Nil
  then show ?case by simp
next
  case (Cons p ps)
  show ?case
  proof (cases "(i, c) = p")
    case True
    with Cons.prems have "i \<notin> fst ` set ps" by force
    then have "port_key i \<notin> port_key ` fst ` set ps"
      by (force simp: port_key_inj)
    then have "fold (\<lambda>p m. m(port_key (fst p) \<mapsto> state ops (snd p))) ps
        (m0(port_key i \<mapsto> state ops c)) (port_key i) = Some (state ops c)"
      by (simp add: fold_state_other)
    with True [symmetric] show ?thesis by (simp del: fun_upd_apply)
  next
    case False
    with Cons show ?thesis by auto
  qed
qed

lemma collect_state_dom: "dom (collect_state ops cs) = port_key ` fst ` set cs"
  by (simp add: collect_state_def fold_state_dom)

lemma collect_state_value:
  "distinct (map fst cs) \<Longrightarrow> (i, c) \<in> set cs
    \<Longrightarrow> collect_state ops cs (port_key i) = Some (state ops c)"
  by (simp add: collect_state_def fold_state_value)

lemma registry_ok_distinct: "registry_ok cs \<Longrightarrow> distinct (map fst cs)"
  unfolding registry_ok_def by (simp add: strict_sorted_iff)

lemma registry_ok_filter: "registry_ok cs \<Longrightarrow> registry_ok (filter P cs)"
  unfolding registry_ok_def by (induction cs) auto

lemma sent_consumers_keys: "set (map fst (sent_consumers ops f cs)) \<subseteq> set (map fst cs)"
  by (induction cs) (auto simp: sent_consumers_simps split: option.splits)

lemma registry_ok_sent: "registry_ok cs \<Longrightarrow> registry_ok (sent_consumers ops f cs)"
proof (induction cs)
  case Nil
  then show ?case by (simp add: sent_consumers_simps)
next
  case (Cons p ps)
  then have "registry_ok (sent_consumers ops f ps)" by (simp add: registry_ok_def)
  moreover from Cons.prems have "\<forall>k\<in>set (map fst ps). fst p < k"
    by (simp add: registry_ok_def)
  with sent_consumers_keys [of ops f ps]
  have "\<forall>k\<in>set (map fst (sent_consumers ops f ps)). fst p < k"
    by blast
  ultimately show ?case
    by (auto simp: sent_consumers_simps registry_ok_def split: option.splits)
qed

lemma sent_consumers_mem:
  "(i, c') \<in> set (sent_consumers ops f cs)
     \<longleftrightarrow> (\<exists>c fut. (i, c) \<in> set cs \<and> send ops f c = Some (fut, c'))"
  by (induction cs) (auto simp: sent_consumers_simps split: option.splits)

lemma sent_futures_mem:
  "(i, fut) \<in> set (sent_futures ops f cs)
     \<longleftrightarrow> (\<exists>c c'. (i, c) \<in> set cs \<and> send ops f c = Some (fut, c'))"
  by (induction cs) (auto simp: sent_futures_simps split: option.splits)


lemma survivors_eq:
  "registry_ok cs \<Longrightarrow> survivors ops f cs =
     filter (\<lambda>p. \<forall>fut. (fst p, fut) \<in> set (sent_futures ops f cs) \<longrightarrow> fut = future_value True)
       (sent_consumers ops f cs)"
  by (simp add: survivors_def send_all_consumers send_all_futures get_all_consumers registry_ok_def)

lemma key_unique: "registry_ok cs \<Longrightarrow> (i, a) \<in> set cs \<Longrightarrow> (i, b) \<in> set cs \<Longrightarrow> a = b"
  by (meson registry_ok_distinct eq_key_imp_eq_value)

lemma survivors_mem:
  assumes "registry_ok cs"
  shows "(i, c') \<in> set (survivors ops f cs)
     \<longleftrightarrow> (\<exists>c. (i, c) \<in> set cs \<and> send ops f c = Some (future_value True, c'))"
proof
  assume "(i, c') \<in> set (survivors ops f cs)"
  then have m: "(i, c') \<in> set (sent_consumers ops f cs)"
    and t: "\<forall>fut. (i, fut) \<in> set (sent_futures ops f cs) \<longrightarrow> fut = future_value True"
    by (auto simp: survivors_eq [OF assms])
  from m obtain c fut where c: "(i, c) \<in> set cs" "send ops f c = Some (fut, c')"
    by (auto simp: sent_consumers_mem)
  then have "(i, fut) \<in> set (sent_futures ops f cs)" by (auto simp: sent_futures_mem)
  with t have "fut = future_value True" by blast
  with c show "\<exists>c. (i, c) \<in> set cs \<and> send ops f c = Some (future_value True, c')" by blast
next
  assume "\<exists>c. (i, c) \<in> set cs \<and> send ops f c = Some (future_value True, c')"
  then obtain c where c: "(i, c) \<in> set cs" "send ops f c = Some (future_value True, c')" by blast
  then have m: "(i, c') \<in> set (sent_consumers ops f cs)" by (auto simp: sent_consumers_mem)
  have "fut = future_value True" if "(i, fut) \<in> set (sent_futures ops f cs)" for fut
  proof -
    from that obtain d d' where d: "(i, d) \<in> set cs" "send ops f d = Some (fut, d')"
      by (auto simp: sent_futures_mem)
    with c assms have "d = c" by (meson key_unique)
    with c d show ?thesis by simp
  qed
  with m show "(i, c') \<in> set (survivors ops f cs)"
    by (auto simp: survivors_eq [OF assms])
qed

lemma registry_ok_survivors: "registry_ok cs \<Longrightarrow> registry_ok (survivors ops f cs)"
  by (simp add: survivors_eq registry_ok_filter registry_ok_sent)

lemma sends_of_append: "sends_of (a @ b) = sends_of a @ sends_of b"
  by (induction a rule: sends_of.induct) auto


lemma initializes_of_append: "initializes_of (a @ b) = initializes_of a @ initializes_of b"
  by (induction a rule: initializes_of.induct) auto

lemma erases_of_append: "erases_of (a @ b) = erases_of a @ erases_of b"
  by (induction a rule: erases_of.induct) auto




lemma dispatch_delivery:
  assumes "length pixels = size_fd (format_desc_m s)" and "format_desc = format_desc_m s"
  shows "dispatch ops (Some pixels) format_desc now s =
     (let cs = survivors ops (Some pixels) (consumers_m s);
          s1 = s\<lparr>consumers_m := cs, state_m := collect_state ops cs\<rparr>;
          events = delivery_events ops (Some pixels) (consumers_m s)
      in if needs_sync ops cs then
           (case microseconds_per_frame (format_desc_m s) of
              None \<Rightarrow> Inl undefined_behaviour
            | Some period \<Rightarrow>
                Inr (s1\<lparr>time_m := Some (previous_deadline (time_m s) now + period)\<rparr>,
                     events @ [pacing_event (time_m s)]))
         else Inr (s1, events))"
  using assms
  by (simp add: dispatch_def Let_def survivors_def delivery_events_def pacing_event_def
      previous_deadline_def split: option.splits)






lemma dispatch_delivery_cases:
  assumes "length pixels = size_fd (format_desc_m s)" and "format_desc = format_desc_m s"
    and "dispatch ops (Some pixels) format_desc now s = Inr (s', tr)"
  obtains
    (self_paced) period where
      "needs_sync ops (survivors ops (Some pixels) (consumers_m s))"
      "microseconds_per_frame (format_desc_m s) = Some period"
      "s' = s\<lparr>consumers_m := survivors ops (Some pixels) (consumers_m s),
              state_m := collect_state ops (survivors ops (Some pixels) (consumers_m s)),
              time_m := Some (previous_deadline (time_m s) now + period)\<rparr>"
      "tr = delivery_events ops (Some pixels) (consumers_m s) @ [pacing_event (time_m s)]"
  | (clocked)
      "\<not> needs_sync ops (survivors ops (Some pixels) (consumers_m s))"
      "s' = s\<lparr>consumers_m := survivors ops (Some pixels) (consumers_m s),
              state_m := collect_state ops (survivors ops (Some pixels) (consumers_m s))\<rparr>"
      "tr = delivery_events ops (Some pixels) (consumers_m s)"
  using assms(3) unfolding dispatch_delivery [OF assms(1,2)] Let_def
  by (auto split: if_splits option.splits)

lemma dispatch_delivery_registry:
  assumes "length pixels = size_fd (format_desc_m s)" and "format_desc = format_desc_m s"
    and "dispatch ops (Some pixels) format_desc now s = Inr (s', tr)"
  shows "consumers_m s' = survivors ops (Some pixels) (consumers_m s)"
    and "state_m s' = collect_state ops (consumers_m s')"
  using assms by (cases rule: dispatch_delivery_cases; simp)+







text \<open>
  Claim C4. After a delivery tick that returns, the registry holds exactly the consumers
  whose \<open>send\<close> returned a future that resolved to \<open>true\<close> (a consumer whose \<open>send\<close> threw,
  whose future held an exception or resolved to \<open>false\<close> is gone, every other one is
  still there, as \<open>send\<close> left it), the registry is still a map, and the diagnostic state
  is exactly the mapping from \<open>port/<index>\<close> to \<open>state()\<close> of each remaining consumer.
\<close>
theorem delivery_evicts_failures_and_rebuilds_state:
  assumes "length pixels = size_fd (format_desc_m s)" and "format_desc = format_desc_m s"
    and "registry_ok (consumers_m s)"
    and "dispatch ops (Some pixels) format_desc now s = Inr (s', tr)"
  shows "(\<forall>i c'. (i, c') \<in> set (consumers_m s') \<longleftrightarrow>
            (\<exists>c. (i, c) \<in> set (consumers_m s) \<and> send ops (Some pixels) c = Some (future_value True, c')))
     \<and> registry_ok (consumers_m s')
     \<and> dom (state_m s') = (\<lambda>p. ''port/'' @ lexical_cast (fst p)) ` set (consumers_m s')
     \<and> (\<forall>i c'. (i, c') \<in> set (consumers_m s') \<longrightarrow>
            state_m s' (''port/'' @ lexical_cast i) = Some (state ops c'))"
proof -
  have c: "consumers_m s' = survivors ops (Some pixels) (consumers_m s)"
    and st: "state_m s' = collect_state ops (consumers_m s')"
    using assms(1,2,4) by (rule dispatch_delivery_registry)+
  have ok: "registry_ok (consumers_m s')"
    unfolding c using assms(3) by (rule registry_ok_survivors)
  have m: "\<forall>i c'. (i, c') \<in> set (consumers_m s') \<longleftrightarrow>
      (\<exists>c. (i, c) \<in> set (consumers_m s) \<and> send ops (Some pixels) c = Some (future_value True, c'))"
    unfolding c by (simp add: survivors_mem [OF assms(3)])
  have d: "dom (state_m s') = (\<lambda>p. ''port/'' @ lexical_cast (fst p)) ` set (consumers_m s')"
    unfolding st by (simp add: collect_state_dom port_key_def image_image)
  have v: "\<forall>i c'. (i, c') \<in> set (consumers_m s') \<longrightarrow>
      state_m s' (''port/'' @ lexical_cast i) = Some (state ops c')"
    using collect_state_value [OF registry_ok_distinct [OF ok], of _ _ ops] st
    by (simp add: port_key_def)
  from m ok d v show ?thesis by blast
qed

lemmas demo_defs = demo_ops_def demo_format_50_def demo_format_25_def demo_format_big_def
  demo_impl_def

lemmas eval_defs = dispatch_def Let_def needs_sync_def collect_state_def port_key_def
  lexical_cast_def digits.simps digit_char_def map_erase_def microseconds_per_frame_def
  static_cast_int_def
  registry_ok_def

lemma demo_three:
  "dispatch demo_ops (Some [0, 0, 0, 0]) demo_format_50 7
      (demo_impl [(1, accepts, 0), (2, refuses, 0), (3, send_throws, 0)] None)
    = Inr (\<lparr>state_m = [''port/1'' \<mapsto> 1], channel_index_m = 1, format_desc_m = demo_format_50,
            consumers_m = [(1, accepts, 1)], time_m = Some 20007\<rparr>,
           [lock_consumers_mutex, unlock_consumers_mutex, call_send 1, call_send 2, call_send 3,
            log_current_exception, erase_consumer 3, future_get 1, future_get 2,
            erase_consumer 2, clock_now])"
  by (simp add: demo_defs eval_defs)

text \<open>
  Claim C4, witness: of three consumers one refuses and one throws; one consumer remains
  and the state has the single key \<open>port/1\<close>.
\<close>
theorem delivery_evicts_failures_and_rebuilds_state_witness:
  "length [0, 0, 0, 0 :: nat]
      = size_fd (format_desc_m (demo_impl [(1, accepts, 0), (2, refuses, 0), (3, send_throws, 0)] None))
   \<and> registry_ok [(1 :: int, accepts, 0 :: nat), (2, refuses, 0), (3, send_throws, 0)]
   \<and> map_sum id (consumers_m \<circ> fst) (dispatch demo_ops (Some [0, 0, 0, 0]) demo_format_50 7
        (demo_impl [(1, accepts, 0), (2, refuses, 0), (3, send_throws, 0)] None))
       = Inr [(1, accepts, 1)]
   \<and> dom (state_m \<lparr>state_m = [''port/1'' \<mapsto> 1 :: nat], channel_index_m = 1,
        format_desc_m = demo_format_50, consumers_m = [(1, accepts, 1 :: nat)],
        time_m = Some 20007\<rparr>) = {''port/1''}"
proof -
  let ?s = "demo_impl [(1, accepts, 0), (2, refuses, 0), (3, send_throws, 0)] None"
  have h1: "length [0, 0, 0, 0 :: nat] = size_fd (format_desc_m ?s)"
    by (simp add: demo_defs)
  have h2: "demo_format_50 = format_desc_m ?s"
    by (simp add: demo_defs)
  have h3: "registry_ok (consumers_m ?s)"
    by (simp add: demo_defs registry_ok_def)
  from delivery_evicts_failures_and_rebuilds_state [OF h1 h2 h3 demo_three]
  have "dom (state_m \<lparr>state_m = [''port/1'' \<mapsto> 1 :: nat], channel_index_m = 1,
        format_desc_m = demo_format_50, consumers_m = [(1, accepts, 1 :: nat)],
        time_m = Some 20007\<rparr>) = {''port/'' @ lexical_cast 1}"
    by simp
  moreover have "lexical_cast 1 = ''1''"
    by (simp add: lexical_cast_def digits.simps digit_char_def)
  ultimately show ?thesis
    using h1 h3 demo_three by (simp add: demo_impl_def)
qed



lemma initialize_all_mem:
  "(i, c') \<in> set (fst (initialize_all ops fd cs))
     \<longleftrightarrow> (\<exists>c. (i, c) \<in> set cs \<and> initialize ops fd i c = Some c')"
  by (induction cs) (auto split: option.splits)

lemma initialize_all_initializes: "initializes_of (snd (initialize_all ops fd cs)) = map fst cs"
  by (induction cs) (auto split: option.splits)

lemma initialize_all_sends: "sends_of (snd (initialize_all ops fd cs)) = []"
  by (induction cs) (auto split: option.splits)

lemma initialize_all_erases:
  "erases_of (snd (initialize_all ops fd cs))
     = map fst (filter (\<lambda>p. initialize ops fd (fst p) (snd p) = None) cs)"
  by (induction cs) (auto split: option.splits)

lemma initialize_all_logs:
  "length (filter (\<lambda>e. e = log_current_exception) (snd (initialize_all ops fd cs)))
     = length (erases_of (snd (initialize_all ops fd cs)))"
  by (induction cs) (auto split: option.splits)

lemma initialize_all_keys: "set (map fst (fst (initialize_all ops fd cs))) \<subseteq> set (map fst cs)"
  by (induction cs) (auto split: option.splits)

lemma registry_ok_initialize_all:
  "registry_ok cs \<Longrightarrow> registry_ok (fst (initialize_all ops fd cs))"
proof (induction cs)
  case Nil
  then show ?case by simp
next
  case (Cons p ps)
  then have "registry_ok (fst (initialize_all ops fd ps))" by (simp add: registry_ok_def)
  moreover from Cons.prems have "\<forall>k\<in>set (map fst ps). fst p < k"
    by (simp add: registry_ok_def)
  with initialize_all_keys [of ops fd ps]
  have "\<forall>k\<in>set (map fst (fst (initialize_all ops fd ps))). fst p < k"
    by blast
  ultimately show ?case
    by (auto simp: registry_ok_def split: option.splits)
qed

text \<open>
  Claim C6, as amended: the frame is present and its size is the size of the current (old)
  format. Then a call with a different format returns, having called \<open>initialize\<close> on every
  registered consumer (in key order, between taking and releasing the mutex) and \<open>send\<close> on
  none; the registry afterwards holds exactly the consumers whose \<open>initialize\<close> returned,
  each failure is erased and logged, the current format is the new one, the pacing
  deadline is unset and the diagnostic state is untouched.
\<close>
theorem format_change_reinitializes:
  assumes "length pixels = size_fd (format_desc_m s)" and "format_desc \<noteq> format_desc_m s"
  shows "\<exists>s' tr. dispatch ops (Some pixels) format_desc now s = Inr (s', tr)
     \<and> hd tr = lock_consumers_mutex \<and> last tr = unlock_consumers_mutex
     \<and> initializes_of tr = map fst (consumers_m s)
     \<and> sends_of tr = []
     \<and> (\<forall>i c'. (i, c') \<in> set (consumers_m s') \<longleftrightarrow>
            (\<exists>c. (i, c) \<in> set (consumers_m s) \<and> initialize ops format_desc i c = Some c'))
     \<and> erases_of tr
          = map fst (filter (\<lambda>p. initialize ops format_desc (fst p) (snd p) = None) (consumers_m s))
     \<and> length (filter (\<lambda>e. e = log_current_exception) tr) = length (erases_of tr)
     \<and> format_desc_m s' = format_desc \<and> time_m s' = None \<and> state_m s' = state_m s"
proof -
  let ?r = "initialize_all ops format_desc (consumers_m s)"
  let ?s' = "s\<lparr>consumers_m := fst ?r, format_desc_m := format_desc, time_m := None\<rparr>"
  let ?tr = "[lock_consumers_mutex] @ snd ?r @ [unlock_consumers_mutex]"
  from assms have d: "dispatch ops (Some pixels) format_desc now s = Inr (?s', ?tr)"
    by (auto simp: dispatch_def Let_def)
  have "hd ?tr = lock_consumers_mutex" "last ?tr = unlock_consumers_mutex" by simp_all
  moreover have "initializes_of ?tr = map fst (consumers_m s)"
    by (simp add: initializes_of_append initialize_all_initializes)
  moreover have "sends_of ?tr = []"
    by (simp add: sends_of_append initialize_all_sends)
  moreover have "\<forall>i c'. (i, c') \<in> set (consumers_m ?s') \<longleftrightarrow>
      (\<exists>c. (i, c) \<in> set (consumers_m s) \<and> initialize ops format_desc i c = Some c')"
    by (simp add: initialize_all_mem)
  moreover have e: "erases_of ?tr
      = map fst (filter (\<lambda>p. initialize ops format_desc (fst p) (snd p) = None) (consumers_m s))"
    by (simp add: erases_of_append initialize_all_erases)
  moreover have "length (filter (\<lambda>e. e = log_current_exception) ?tr) = length (erases_of ?tr)"
    by (simp add: erases_of_append initialize_all_logs)
  moreover have "format_desc_m ?s' = format_desc" "time_m ?s' = None" "state_m ?s' = state_m s"
    by simp_all
  ultimately show ?thesis using d by blast
qed

text \<open>Claim C6, witness: two consumers, the second throws from \<open>initialize\<close>.\<close>
theorem format_change_reinitializes_witness:
  "length [0, 0, 0, 0 :: nat]
      = size_fd (format_desc_m (demo_impl [(1, accepts, 5), (2, initialize_throws, 5)] (Some 9)))
   \<and> demo_format_25 \<noteq> format_desc_m (demo_impl [(1, accepts, 5), (2, initialize_throws, 5)] (Some 9))
   \<and> (\<exists>s' tr. dispatch demo_ops (Some [0, 0, 0, 0]) demo_format_25 7
          (demo_impl [(1, accepts, 5), (2, initialize_throws, 5)] (Some 9)) = Inr (s', tr)
        \<and> initializes_of tr = [1, 2] \<and> sends_of tr = [] \<and> erases_of tr = [2]
        \<and> format_desc_m s' = demo_format_25 \<and> time_m s' = None)"
proof -
  let ?s = "demo_impl [(1, accepts, 5), (2, initialize_throws, 5)] (Some 9)"
  have h1: "length [0, 0, 0, 0 :: nat] = size_fd (format_desc_m ?s)"
    by (simp add: demo_defs)
  have h2: "demo_format_25 \<noteq> format_desc_m ?s"
    by (simp add: demo_defs)
  have k: "map fst (consumers_m ?s) = [1, 2]"
    "map fst (filter (\<lambda>p. initialize demo_ops demo_format_25 (fst p) (snd p) = None)
        (consumers_m ?s)) = [2]"
    by (simp_all add: demo_defs)
  from format_change_reinitializes [OF h1 h2, of demo_ops 7] h1 h2 show ?thesis
    unfolding k by blast
qed

text \<open>
  Claim C6, counterexample to the claim as stated (for every call with a different
  format). With an absent frame, and with a frame whose size is the new format's and not
  the current one's, the call returns before line 99: no \<open>initialize\<close>, the format and
  the deadline stay as they were.
\<close>
theorem format_change_skipped_without_matching_frame:
  "demo_format_25 \<noteq> format_desc_m (demo_impl [(1, accepts, 5)] (Some 9))
   \<and> dispatch demo_ops None demo_format_25 7 (demo_impl [(1, accepts, 5)] (Some 9))
       = Inr (demo_impl [(1, accepts, 5)] (Some 9), [])
   \<and> demo_format_big \<noteq> format_desc_m (demo_impl [(1, accepts, 5)] (Some 9))
   \<and> dispatch demo_ops (Some [0, 0, 0, 0, 0, 0, 0, 0]) demo_format_big 7
        (demo_impl [(1, accepts, 5)] (Some 9))
       = Inr (demo_impl [(1, accepts, 5)] (Some 9), [log_warning])
   \<and> format_desc_m (demo_impl [(1, accepts, 5)] (Some 9)) = demo_format_50
   \<and> time_m (demo_impl [(1, accepts, 5)] (Some 9)) = Some 9"
  by (simp add: demo_defs eval_defs)

text \<open>
  Claim C7. When the frame is absent, or its size is not the size of the current format,
  the call returns the struct unchanged (registry, format, deadline and diagnostic state),
  calls no \<open>send\<close>, and logs a warning in the second case only.
\<close>
theorem absent_or_missized_frame_is_dropped:
  assumes "input_frame = None
     \<or> (\<exists>pixels. input_frame = Some pixels \<and> length pixels \<noteq> size_fd (format_desc_m s))"
  shows "dispatch ops input_frame format_desc now s
       = Inr (s, if input_frame = None then [] else [log_warning])
     \<and> sends_of (if input_frame = None then [] else [log_warning]) = []"
  using assms by (auto simp: dispatch_def)

text \<open>Claim C7, witness: a frame of three bytes against a format of four, and no frame.\<close>
theorem absent_or_missized_frame_is_dropped_witness:
  "(Some [0, 0, 0 :: nat] = None
     \<or> (\<exists>pixels. Some [0, 0, 0 :: nat] = Some pixels
          \<and> length pixels \<noteq> size_fd (format_desc_m (demo_impl [(1, accepts, 5)] (Some 9)))))
   \<and> dispatch demo_ops (Some [0, 0, 0]) demo_format_50 7 (demo_impl [(1, accepts, 5)] (Some 9))
       = Inr (demo_impl [(1, accepts, 5)] (Some 9), [log_warning])
   \<and> dispatch demo_ops None demo_format_50 7 (demo_impl [(1, accepts, 5)] (Some 9))
       = Inr (demo_impl [(1, accepts, 5)] (Some 9), [])"
proof -
  let ?s = "demo_impl [(1, accepts, 5)] (Some 9)"
  have h: "Some [0, 0, 0 :: nat] = None
     \<or> (\<exists>pixels. Some [0, 0, 0 :: nat] = Some pixels \<and> length pixels \<noteq> size_fd (format_desc_m ?s))"
    by (simp add: demo_defs)
  have n: "(None :: nat list option) = None
     \<or> (\<exists>pixels. (None :: nat list option) = Some pixels \<and> length pixels \<noteq> size_fd (format_desc_m ?s))"
    by simp
  from absent_or_missized_frame_is_dropped [OF h, of demo_ops demo_format_50 7] absent_or_missized_frame_is_dropped [OF n, of demo_ops demo_format_50 7] h
  show ?thesis by simp
qed

lemma send_all_no_clock:
  "clock_now \<notin> set (snd (snd (send_all ops f cs futs)))
   \<and> sleep_until t \<notin> set (snd (snd (send_all ops f cs futs)))"
  by (induction cs arbitrary: futs) (auto simp: Let_def split: option.splits)

lemma get_all_no_clock:
  "clock_now \<notin> set (snd (get_all fs cs)) \<and> sleep_until t \<notin> set (snd (get_all fs cs))"
  by (induction fs arbitrary: cs) (auto split: future_bool.splits)

lemma delivery_events_no_clock:
  "clock_now \<notin> set (delivery_events ops f cs)"
  "sleep_until t \<notin> set (delivery_events ops f cs)"
  by (simp_all add: delivery_events_def send_all_no_clock get_all_no_clock)

lemma dispatch_self_paced:
  assumes "length pixels = size_fd (format_desc_m s)" and "format_desc = format_desc_m s"
    and "dispatch ops (Some pixels) format_desc now s = Inr (s', tr)"
    and "list_all (\<lambda>p. \<not> has_synchronization_clock ops (snd p)) (consumers_m s')"
  shows "\<exists>period. microseconds_per_frame (format_desc_m s) = Some period
     \<and> time_m s' = Some ((case time_m s of None \<Rightarrow> now | Some t \<Rightarrow> t) + period)
     \<and> last tr = (case time_m s of None \<Rightarrow> clock_now | Some t \<Rightarrow> sleep_until t)"
  using assms(1,2,3)
proof (cases rule: dispatch_delivery_cases)
  case (self_paced period)
  then show ?thesis by (simp add: previous_deadline_def pacing_event_def)
next
  case clocked
  with assms(4) show ?thesis by (simp add: needs_sync_def)
qed

lemma dispatch_clocked:
  assumes "length pixels = size_fd (format_desc_m s)" and "format_desc = format_desc_m s"
    and "dispatch ops (Some pixels) format_desc now s = Inr (s', tr)"
    and "\<not> list_all (\<lambda>p. \<not> has_synchronization_clock ops (snd p)) (consumers_m s')"
  shows "time_m s' = time_m s \<and> clock_now \<notin> set tr \<and> (\<forall>t. sleep_until t \<notin> set tr)"
  using assms(1,2,3)
proof (cases rule: dispatch_delivery_cases)
  case (self_paced period)
  with assms(4) show ?thesis by (simp add: needs_sync_def)
next
  case clocked
  then show ?thesis by (simp add: delivery_events_no_clock)
qed

text \<open>
  Claim C10. When no consumer is registered at the pacing step of a delivery tick that
  returns, the tick paces itself as \<open>dispatch_self_paced\<close> says it does for consumers
  without a clock: the new deadline is the previous one (the clock reading when none was
  set) plus the frame period, and the last event is the clock reading or the sleep until
  the previous deadline.
\<close>
theorem empty_registry_self_paces:
  assumes "length pixels = size_fd (format_desc_m s)" and "format_desc = format_desc_m s"
    and "dispatch ops (Some pixels) format_desc now s = Inr (s', tr)"
    and "consumers_m s' = []"
  shows "\<exists>period. microseconds_per_frame (format_desc_m s) = Some period
     \<and> time_m s' = Some ((case time_m s of None \<Rightarrow> now | Some t \<Rightarrow> t) + period)
     \<and> last tr = (case time_m s of None \<Rightarrow> clock_now | Some t \<Rightarrow> sleep_until t)"
  using assms(1,2,3)
proof (rule dispatch_self_paced)
  from assms(4) show "list_all (\<lambda>p. \<not> has_synchronization_clock ops (snd p)) (consumers_m s')"
    by simp
qed

lemma demo_all_evicted:
  "dispatch demo_ops (Some [0, 0, 0, 0]) demo_format_50 7
      (demo_impl [(1, refuses, 0), (3, send_throws, 0)] (Some 1000))
    = Inr (\<lparr>state_m = Map.empty, channel_index_m = 1, format_desc_m = demo_format_50,
            consumers_m = [], time_m = Some 21000\<rparr>,
           [lock_consumers_mutex, unlock_consumers_mutex, call_send 1, call_send 3,
            log_current_exception, erase_consumer 3, future_get 1, erase_consumer 1,
            sleep_until 1000])"
  by (simp add: demo_defs eval_defs)

text \<open>
  Claim C10, witness: both consumers are evicted during the tick, which then sleeps until
  the stored deadline 1000 and stores 21000; with no consumer and no deadline, the tick
  reads the clock (7) and stores 20007.
\<close>
theorem empty_registry_self_paces_witness:
  "length [0, 0, 0, 0 :: nat]
      = size_fd (format_desc_m (demo_impl [(1, refuses, 0), (3, send_throws, 0)] (Some 1000)))
   \<and> map_sum id (consumers_m \<circ> fst) (dispatch demo_ops (Some [0, 0, 0, 0]) demo_format_50 7
        (demo_impl [(1, refuses, 0), (3, send_throws, 0)] (Some 1000))) = Inr []
   \<and> map_sum id (time_m \<circ> fst) (dispatch demo_ops (Some [0, 0, 0, 0]) demo_format_50 7
        (demo_impl [(1, refuses, 0), (3, send_throws, 0)] (Some 1000))) = Inr (Some 21000)
   \<and> microseconds_per_frame demo_format_50 = Some 20000
   \<and> map_sum id (time_m \<circ> fst) (dispatch demo_ops (Some [0, 0, 0, 0]) demo_format_50 7
        (demo_impl [] None)) = Inr (Some 20007)"
proof -
  let ?s = "demo_impl [(1, refuses, 0), (3, send_throws, 0)] (Some 1000)"
  have h1: "length [0, 0, 0, 0 :: nat] = size_fd (format_desc_m ?s)"
    by (simp add: demo_defs)
  have h2: "demo_format_50 = format_desc_m ?s"
    by (simp add: demo_defs)
  have p: "microseconds_per_frame demo_format_50 = Some 20000"
    by (simp add: demo_defs eval_defs)
  have e: "map_sum id (time_m \<circ> fst) (dispatch demo_ops (Some [0, 0, 0, 0]) demo_format_50 7
        (demo_impl [] None)) = Inr (Some 20007)"
    by (simp add: demo_defs eval_defs)
  from empty_registry_self_paces [OF h1 h2 demo_all_evicted] p
  have "time_m \<lparr>state_m = Map.empty :: string \<rightharpoonup> nat, channel_index_m = 1, format_desc_m = demo_format_50,
            consumers_m = [] :: (int \<times> demo_kind \<times> nat) list, time_m = Some 21000\<rparr> = Some (1000 + 20000)"
    by (simp add: demo_defs)
  with h1 p e demo_all_evicted show ?thesis by simp
qed

text \<open>
  Claim C5, at the input where it fails. A deadline of 1000000 is stored and the only
  consumer owns a synchronization clock. The tick does not block, but the stored deadline
  is still 1000000 after it: line 97 does not empty \<^verbatim>\<open>time_\<close>, and nothing on this path
  assigns to it.
\<close>
theorem clocked_tick_keeps_stale_deadline:
  "dispatch demo_ops (Some [0, 0, 0, 0]) demo_format_50 5000000
      (demo_impl [(1, clocked, 0)] (Some 1000000))
    = Inr (\<lparr>state_m = [''port/1'' \<mapsto> 1], channel_index_m = 1, format_desc_m = demo_format_50,
            consumers_m = [(1, clocked, 1)], time_m = Some 1000000\<rparr>,
           [lock_consumers_mutex, unlock_consumers_mutex, call_send 1, future_get 1])"
  by (simp add: demo_defs eval_defs)

lemma dispatch_returns:
  assumes "microseconds_per_frame (format_desc_m s) \<noteq> None"
  shows "\<exists>s' tr. dispatch ops input_frame format_desc now s = Inr (s', tr)"
proof (cases input_frame)
  case None
  then show ?thesis by (simp add: dispatch_def)
next
  case (Some pixels)
  from assms obtain period where p: "microseconds_per_frame (format_desc_m s) = Some period"
    by (cases "microseconds_per_frame (format_desc_m s)") simp_all
  show ?thesis
  proof (cases "length pixels = size_fd (format_desc_m s) \<and> format_desc = format_desc_m s")
    case True
    then show ?thesis
      unfolding Some by (simp add: dispatch_delivery Let_def p)
  next
    case False
    then show ?thesis
      unfolding Some by (auto simp: dispatch_def Let_def)
  qed
qed

lemma registry_ok_remove: "registry_ok (consumers_m s) \<Longrightarrow> registry_ok (consumers_m (remove index s))"
  by (simp add: remove_def map_erase_def registry_ok_filter)

lemma registry_ok_emplace: "registry_ok cs \<Longrightarrow> registry_ok (map_emplace k v cs)"
  unfolding registry_ok_def
proof (induction cs)
  case Nil
  then show ?case by simp
next
  case (Cons p ps)
  have sub: "set (map fst (map_emplace k v ps)) \<subseteq> insert k (set (map fst ps))"
    by (induction ps) auto
  show ?case
  proof (cases "k \<le> fst p")
    case True
    with Cons.prems show ?thesis by auto
  next
    case False
    from Cons.prems have lt: "\<forall>x\<in>set (map fst ps). fst p < x" by simp
    have "\<forall>x\<in>set (map fst (map_emplace k v ps)). fst p < x"
    proof
      fix x assume "x \<in> set (map fst (map_emplace k v ps))"
      with sub have "x = k \<or> x \<in> set (map fst ps)" by blast
      with lt False show "fst p < x" by auto
    qed
    moreover from Cons have "sorted_wrt (<) (map fst (map_emplace k v ps))" by simp
    ultimately show ?thesis using False by simp
  qed
qed

lemma registry_ok_add:
  "registry_ok (consumers_m s) \<Longrightarrow> add ops index consumer s = Inr s'
    \<Longrightarrow> registry_ok (consumers_m s')"
  using registry_ok_remove [of s index]
  by (auto simp: add_def Let_def registry_ok_emplace split: option.splits)


section \<open>The video decoder: lemmas and claims\<close>

lemma decode_events:
  "events (snd (decode lib pkt st)) = events st @ [decode_video2 pkt]
   \<or> (\<exists>fr. fst (decode lib pkt st) = Inr (Some fr)
        \<and> events (snd (decode lib pkt st)) = events st @ [decode_video2 pkt, log_repeat_pict])"
  by (simp add: decode_def Let_def)

lemma decode_index: "index_m (snd (decode lib pkt st)) = index_m st"
  by (simp add: decode_def Let_def)

lemma emit_frame_events:
  "\<exists>d. events (emit_frame lib fr tk st) = events st @ [send_target (frame d, tk), yield]"
  by (simp add: emit_frame_def Let_def)

lemma emit_frame_index: "index_m (emit_frame lib fr tk st) = index_m st"
  by (simp add: emit_frame_def Let_def)

lemma is_flush_events_frame:
  "is_flush_events tk evs
    \<Longrightarrow> is_flush_events tk (decode_video2 None # send_target (frame d, tk) # yield # evs)"
  by simp

lemma is_flush_events_warn:
  "is_flush_events tk evs
    \<Longrightarrow> is_flush_events tk (decode_video2 None # log_repeat_pict # send_target (frame d, tk) # yield # evs)"
  by simp

lemma flush_frames_shape:
  "flush_frames lib ticket st = Some r
    \<Longrightarrow> (\<exists>evs. events (state_of r) = events st @ evs \<and> is_flush_events ticket evs)
        \<and> (\<forall>s. r \<noteq> break_loop s) \<and> index_m (state_of r) = index_m st"
proof (induction rule: flush_frames.raw_induct [rotated 1, consumes 1, case_names 1])
  case (1 flush_frames lib ticket st r)
  let ?d = "decode lib None st"
  show ?case
  proof (cases "fst ?d")
    case (Inl e)
    with 1(2) have r: "r = thrown (snd ?d)" by simp
    from Inl decode_events [of lib None st]
    have "events (snd ?d) = events st @ [decode_video2 None]" by auto
    with r show ?thesis by (simp add: decode_index)
  next
    case (Inr fo)
    show ?thesis
    proof (cases fo)
      case None
      with Inr 1(2) have r: "r = continue_loop (snd ?d)" by simp
      from Inr None decode_events [of lib None st]
      have "events (snd ?d) = events st @ [decode_video2 None]" by auto
      with r show ?thesis by (simp add: decode_index)
    next
      case (Some fr)
      let ?st1 = "emit_frame lib fr ticket (snd ?d)"
      from Inr Some 1(2) have "flush_frames lib ticket ?st1 = Some r" by simp
      from 1(1) [OF this] obtain evs
        where evs: "events (state_of r) = events ?st1 @ evs" "is_flush_events ticket evs"
          and nb: "\<forall>s. r \<noteq> break_loop s" and ix: "index_m (state_of r) = index_m ?st1"
        by blast
      obtain d where d: "events ?st1 = events (snd ?d) @ [send_target (frame d, ticket), yield]"
        using emit_frame_events [of lib fr ticket "snd ?d"] by blast
      from decode_events [of lib None st]
      have "(\<exists>evs'. events (state_of r) = events st @ evs' \<and> is_flush_events ticket evs')"
      proof
        assume "events (snd ?d) = events st @ [decode_video2 None]"
        with evs d have "events (state_of r)
            = events st @ (decode_video2 None # send_target (frame d, ticket) # yield # evs)"
          by simp
        moreover have "is_flush_events ticket
            (decode_video2 None # send_target (frame d, ticket) # yield # evs)"
          using evs(2) by (rule is_flush_events_frame)
        ultimately show ?thesis by blast
      next
        assume "\<exists>fr. fst ?d = Inr (Some fr)
          \<and> events (snd ?d) = events st @ [decode_video2 None, log_repeat_pict]"
        with evs d have "events (state_of r)
            = events st @ (decode_video2 None # log_repeat_pict # send_target (frame d, ticket)
                # yield # evs)"
          by auto
        moreover have "is_flush_events ticket
            (decode_video2 None # log_repeat_pict # send_target (frame d, ticket) # yield # evs)"
          using evs(2) by (rule is_flush_events_warn)
        ultimately show ?thesis by blast
      qed
      with nb ix show ?thesis by (simp add: emit_frame_index decode_index)
    qed
  qed
qed

lemma sent_to_target_append: "sent_to_target (a @ b) = sent_to_target a @ sent_to_target b"
  by (induction a rule: sent_to_target.induct) auto




lemma flush_tickets:
  "is_flush_events tk evs
    \<Longrightarrow> list_all (\<lambda>e. (\<exists>d. fst e = frame d) \<and> snd e = tk) (sent_to_target evs)"
  by (induction tk evs rule: is_flush_events.induct) auto


lemma on_data_packet_shape:
  "\<exists>evs. events (state_of (on_data_packet lib pkt ticket st)) = events st @ decode_video2 pkt # evs
     \<and> (evs = [] \<or> (\<exists>d. evs = [send_target (frame d, ticket), yield])
          \<or> (\<exists>d. evs = [log_repeat_pict, send_target (frame d, ticket), yield]))
     \<and> ((\<exists>s. on_data_packet lib pkt ticket st = thrown s) \<longrightarrow> evs = [])
     \<and> (\<forall>s. on_data_packet lib pkt ticket st \<noteq> break_loop s)
     \<and> index_m (state_of (on_data_packet lib pkt ticket st)) = index_m st"
proof (cases "fst (decode lib pkt st)")
  case (Inl e)
  from Inl decode_events [of lib pkt st]
  have "events (snd (decode lib pkt st)) = events st @ [decode_video2 pkt]" by auto
  with Inl show ?thesis by (simp add: on_data_packet_def decode_index)
next
  case (Inr fo)
  show ?thesis
  proof (cases fo)
    case None
    from Inr None decode_events [of lib pkt st]
    have "events (snd (decode lib pkt st)) = events st @ [decode_video2 pkt]" by auto
    with Inr None show ?thesis by (simp add: on_data_packet_def decode_index)
  next
    case (Some fr)
    let ?st1 = "(snd (decode lib pkt st))\<lparr>is_progressive_m := (interlaced_frame fr = 0)\<rparr>"
    obtain d where d: "events (emit_frame lib fr ticket ?st1)
        = events ?st1 @ [send_target (frame d, ticket), yield]"
      using emit_frame_events [of lib fr ticket ?st1] by blast
    from decode_events [of lib pkt st]
    have "events ?st1 = events st @ [decode_video2 pkt]
      \<or> events ?st1 = events st @ [decode_video2 pkt, log_repeat_pict]"
      by auto
    with d Inr Some show ?thesis
      by (auto simp: on_data_packet_def emit_frame_index decode_index)
  qed
qed

lemma iteration_index: "iteration lib element st = Some r \<Longrightarrow> index_m (state_of r) = index_m st"
  using on_data_packet_shape [of lib "payload (fst element)" "snd element" st]
    flush_frames_shape [of lib "snd element" st]
  by (auto simp: iteration_def Let_def on_loop_packet_def
      split: if_splits option.splits loop_result.splits)




lemma flush_frames_returns:
  assumes drains: "\<forall>c. 0 \<le> ret (avcodec_decode_video2 lib c None)
      \<and> frame_finished (avcodec_decode_video2 lib c None) \<noteq> 0
      \<longrightarrow> buffered (codec_after (avcodec_decode_video2 lib c None)) < (buffered c :: nat)"
  shows "\<exists>r. flush_frames lib ticket st = Some r"
proof (induction "buffered (codec_context_m st)" arbitrary: st rule: less_induct)
  case less
  let ?r = "avcodec_decode_video2 lib (codec_context_m st) None"
  let ?d = "decode lib None st"
  show ?case
  proof (cases "fst ?d")
    case (Inl e)
    then show ?thesis by (subst flush_frames.simps) simp
  next
    case (Inr fo)
    show ?thesis
    proof (cases fo)
      case None
      with Inr show ?thesis by (subst flush_frames.simps) simp
    next
      case (Some fr)
      with Inr have "0 \<le> ret ?r" "frame_finished ?r \<noteq> 0"
        by (auto simp: decode_def Let_def split: if_splits)
      with drains have "buffered (codec_after ?r) < buffered (codec_context_m st)" by simp
      moreover have "codec_context_m (emit_frame lib fr ticket (snd ?d)) = codec_after ?r"
        by (simp add: emit_frame_def decode_def Let_def)
      ultimately have "\<exists>r. flush_frames lib ticket (emit_frame lib fr ticket (snd ?d)) = Some r"
        using less by simp
      with Inr Some show ?thesis by (subst flush_frames.simps) simp
    qed
  qed
qed

lemma eof_iteration:
  "iteration lib (eof_packet (index_m st), ticket) st = Some (break_loop st)"
  by (simp add: iteration_def)

lemma decode_fields:
  "codec_context_m (snd (decode lib pkt st))
     = codec_after (avcodec_decode_video2 lib (codec_context_m st) pkt)"
  "allocator (snd (decode lib pkt st)) = allocator st"
  "is_progressive_m (snd (decode lib pkt st)) = is_progressive_m st"
  by (simp_all add: decode_def Let_def)

lemma decode_result:
  "(\<exists>e. fst (decode lib pkt st) = Inl e)
     \<longleftrightarrow> ret (avcodec_decode_video2 lib (codec_context_m st) pkt) < 0"
  "fst (decode lib pkt st) = Inr None
     \<longleftrightarrow> 0 \<le> ret (avcodec_decode_video2 lib (codec_context_m st) pkt)
       \<and> frame_finished (avcodec_decode_video2 lib (codec_context_m st) pkt) = 0"
  "fst (decode lib pkt st) = Inr (Some fr)
     \<longleftrightarrow> 0 \<le> ret (avcodec_decode_video2 lib (codec_context_m st) pkt)
       \<and> frame_finished (avcodec_decode_video2 lib (codec_context_m st) pkt) \<noteq> 0
       \<and> fr = decoded_frame (avcodec_decode_video2 lib (codec_context_m st) pkt)"
  by (auto simp: decode_def Let_def)

lemma decode_events_cases:
  "events (snd (decode lib pkt st)) = events st @ [decode_video2 pkt]
   \<or> events (snd (decode lib pkt st)) = events st @ [decode_video2 pkt, log_repeat_pict]"
  by (simp add: decode_def Let_def)

lemma emit_frame_fields:
  "events (emit_frame lib fr tk st)
     = events st @ [send_target (frame (fst (dup_frame lib fr (allocator st))), tk), yield]"
  "allocator (emit_frame lib fr tk st) = snd (dup_frame lib fr (allocator st))"
  "codec_context_m (emit_frame lib fr tk st) = codec_context_m st"
  "is_progressive_m (emit_frame lib fr tk st) = is_progressive_m st"
  by (simp_all add: emit_frame_def Let_def)

lemma flush_frames_exact:
  "flush_frames lib ticket st = Some r
    \<Longrightarrow> (\<exists>evs. events (state_of r) = events st @ evs \<and> is_flush_events ticket evs
          \<and> flushed lib (codec_context_m st) (allocator st) (frames_of (sent_to_target evs))
              (r = thrown (state_of r)) (codec_context_m (state_of r)) (allocator (state_of r)))
        \<and> (r = thrown (state_of r) \<or> r = continue_loop (state_of r))
        \<and> index_m (state_of r) = index_m st
        \<and> is_progressive_m (state_of r) = is_progressive_m st"
proof (induction rule: flush_frames.raw_induct [rotated 1, consumes 1, case_names 1])
  case (1 flush_frames lib ticket st r)
  let ?d = "decode lib None st"
  let ?r = "avcodec_decode_video2 lib (codec_context_m st) None"
  show ?case
  proof (cases "fst ?d")
    case (Inl e)
    with 1(2) have r: "r = thrown (snd ?d)" by simp
    from Inl have neg: "ret ?r < 0" using decode_result(1) [of lib None st] by auto
    from Inl decode_events [of lib None st]
    have "events (snd ?d) = events st @ [decode_video2 None]" by auto
    with r neg show ?thesis
      by (simp add: decode_index decode_fields)
  next
    case (Inr fo)
    show ?thesis
    proof (cases fo)
      case None
      with Inr 1(2) have r: "r = continue_loop (snd ?d)" by simp
      from Inr None have nf: "0 \<le> ret ?r" "frame_finished ?r = 0"
        using decode_result(2) [of lib None st] by auto
      from Inr None decode_events [of lib None st]
      have "events (snd ?d) = events st @ [decode_video2 None]" by auto
      with r nf show ?thesis by (simp add: decode_index decode_fields)
    next
      case (Some fr)
      let ?st1 = "emit_frame lib fr ticket (snd ?d)"
      let ?dup = "dup_frame lib (decoded_frame ?r) (allocator st)"
      from Inr Some have fr: "returns_frame lib (codec_context_m st)" "fr = decoded_frame ?r"
        using decode_result(3) [of lib None st fr] by (auto simp: returns_frame_def)
      from Inr Some 1(2) have "flush_frames lib ticket ?st1 = Some r" by simp
      from 1(1) [OF this] obtain evs
        where evs: "events (state_of r) = events ?st1 @ evs" "is_flush_events ticket evs"
          and fl: "flushed lib (codec_context_m ?st1) (allocator ?st1)
              (frames_of (sent_to_target evs)) (r = thrown (state_of r))
              (codec_context_m (state_of r)) (allocator (state_of r))"
          and k: "r = thrown (state_of r) \<or> r = continue_loop (state_of r)"
          and ix: "index_m (state_of r) = index_m ?st1"
          and pr: "is_progressive_m (state_of r) = is_progressive_m ?st1"
        by (elim exE conjE)
      have e1: "events ?st1 = events (snd ?d) @ [send_target (frame (fst ?dup), ticket), yield]"
        by (simp add: emit_frame_fields decode_fields fr(2))
      have fl': "flushed lib (codec_after ?r) (snd ?dup) (frames_of (sent_to_target evs))
          (r = thrown (state_of r)) (codec_context_m (state_of r)) (allocator (state_of r))"
        using fl by (simp add: emit_frame_fields decode_fields fr(2))
      from decode_events_cases [of lib None st]
      have "\<exists>evs'. events (state_of r) = events st @ evs' \<and> is_flush_events ticket evs'
          \<and> flushed lib (codec_context_m st) (allocator st) (frames_of (sent_to_target evs'))
              (r = thrown (state_of r)) (codec_context_m (state_of r)) (allocator (state_of r))"
      proof
        assume "events (snd ?d) = events st @ [decode_video2 None]"
        with evs e1 fl' fr(1) show ?thesis
          by (intro exI [of _ "decode_video2 None # send_target (frame (fst ?dup), ticket)
                # yield # evs"]) simp
      next
        assume "events (snd ?d) = events st @ [decode_video2 None, log_repeat_pict]"
        with evs e1 fl' fr(1) show ?thesis
          by (intro exI [of _ "decode_video2 None # log_repeat_pict
                # send_target (frame (fst ?dup), ticket) # yield # evs"]) simp
      qed
      with k ix pr show ?thesis
        by (simp add: emit_frame_index emit_frame_fields decode_index decode_fields)
    qed
  qed
qed

lemma flush_frames_ends:
  "\<not> returns_frame lib (after_flushes lib n (codec_context_m st))
    \<Longrightarrow> \<exists>r. flush_frames lib ticket st = Some r"
proof (induction n arbitrary: st)
  case 0
  let ?d = "decode lib None st"
  from 0 have "\<forall>fr. fst ?d \<noteq> Inr (Some fr)"
    using decode_result(3) [of lib None st] by (auto simp: returns_frame_def)
  then show ?case
    by (subst flush_frames.simps) (auto split: sum.splits option.splits)
next
  case (Suc n)
  let ?d = "decode lib None st"
  show ?case
  proof (cases "\<exists>fr. fst ?d = Inr (Some fr)")
    case False
    then show ?thesis
      by (subst flush_frames.simps) (auto split: sum.splits option.splits)
  next
    case True
    then obtain fr where fr: "fst ?d = Inr (Some fr)" by (elim exE)
    let ?st1 = "emit_frame lib fr ticket (snd ?d)"
    have "codec_context_m ?st1 = codec_after (avcodec_decode_video2 lib (codec_context_m st) None)"
      by (simp add: emit_frame_fields decode_fields)
    with Suc.prems have "\<not> returns_frame lib (after_flushes lib n (codec_context_m ?st1))"
      by simp
    from Suc.IH [OF this] fr show ?thesis
      by (subst flush_frames.simps) simp
  qed
qed

lemma flushed_stops:
  "flushed lib c h ds failed c' h' \<Longrightarrow> \<not> returns_frame lib (after_flushes lib (length ds) c)"
  by (induction ds arbitrary: c h) (auto simp: returns_frame_def split: if_splits)

lemma flush_frames_None_iff:
  "flush_frames lib ticket st = None
    \<longleftrightarrow> (\<forall>n. returns_frame lib (after_flushes lib n (codec_context_m st)))"
proof
  assume n: "flush_frames lib ticket st = None"
  show "\<forall>n. returns_frame lib (after_flushes lib n (codec_context_m st))"
  proof (rule ccontr)
    assume "\<not> (\<forall>n. returns_frame lib (after_flushes lib n (codec_context_m st)))"
    then obtain k where "\<not> returns_frame lib (after_flushes lib k (codec_context_m st))"
      by auto
    from flush_frames_ends [OF this, of ticket] n show False by simp
  qed
next
  assume a: "\<forall>n. returns_frame lib (after_flushes lib n (codec_context_m st))"
  show "flush_frames lib ticket st = None"
  proof (rule ccontr)
    assume "flush_frames lib ticket st \<noteq> None"
    then obtain r where r: "flush_frames lib ticket st = Some r" by auto
    from flush_frames_exact [OF r, THEN conjunct1] obtain evs where
      "events (state_of r) = events st @ evs" and "is_flush_events ticket evs" and
      "flushed lib (codec_context_m st) (allocator st) (frames_of (sent_to_target evs))
              (r = thrown (state_of r)) (codec_context_m (state_of r)) (allocator (state_of r))"
      by (elim exE conjE)
    from flushed_stops [OF this(3)] a show False by simp
  qed
qed

lemma state_of_flush:
  assumes "index_m s0 = index_m st" and "is_progressive_m s0 = is_progressive_m st"
    and "events s0 = events st @ evs"
  shows "(s0 :: ('c, 'p, 't) implementation)
      = st\<lparr>codec_context_m := codec_context_m s0, allocator := allocator s0,
          events := events st @ evs\<rparr>"
  using assms by (intro implementation.equality) simp_all

lemma loop_iteration:
  "iteration lib (loop_packet (index_m st), ticket) st = on_loop_packet lib ticket st"
  by (simp add: iteration_def)

lemma on_loop_packet_None:
  "on_loop_packet lib ticket st = None
    \<longleftrightarrow> has_CODEC_CAP_DELAY lib (codec_context_m st) \<and> flush_frames lib ticket st = None"
  by (auto simp: on_loop_packet_def split: option.splits loop_result.splits)

text \<open>
  Claim C2, as amended. For a received loop packet, the pass through the loop body does
  not end exactly when the codec has delay and every flush decode returns a frame. When
  the pass ends, its events begin with the flush decodes \<open>evs\<close> (none when the codec has no
  delay): each flush decode that returns a frame is followed by the send, with the
  packet's ticket, of \<open>dup_frame\<close> of the frame returned, made on the heap as it is at that
  moment (\<open>flushed\<close>), until one flush decode returns no frame or fails; nothing but frames
  is sent that far. If that last flush decode returned no frame (or the codec has no
  delay), the codec is then flushed (\<open>avcodec_flush_buffers\<close>), exactly one \<open>loop_video\<close>
  element is sent, and the loop goes on with the rest of the elements from that state. If
  it failed, the codec is not flushed and no \<open>loop_video\<close> element is sent: the pass ends
  with the exception, the loop is left, and \<open>run\<close> ends with the log line, the EofSignal
  and \<open>done()\<close>. An eof packet leaves the loop with the state untouched (no flush), and
  \<open>run\<close> ends with the EofSignal.
\<close>
theorem loop_packet_flushes_then_signals:
  "(iteration lib (loop_packet (index_m st), ticket) st = None
      \<longleftrightarrow> has_CODEC_CAP_DELAY lib (codec_context_m st)
          \<and> (\<forall>n. returns_frame lib (after_flushes lib n (codec_context_m st))))
   \<and> (\<forall>r. iteration lib (loop_packet (index_m st), ticket) st = Some r \<longrightarrow>
        (\<exists>evs failed c1 h1.
            (if has_CODEC_CAP_DELAY lib (codec_context_m st)
             then is_flush_events ticket evs
                  \<and> flushed lib (codec_context_m st) (allocator st)
                      (frames_of (sent_to_target evs)) failed c1 h1
             else evs = [] \<and> \<not> failed \<and> c1 = codec_context_m st \<and> h1 = allocator st)
          \<and> list_all (\<lambda>e. \<exists>d. fst e = frame d) (sent_to_target evs)
          \<and> r = (if failed
                 then thrown (st\<lparr>codec_context_m := c1, allocator := h1,
                        events := events st @ evs\<rparr>)
                 else continue_loop
                       (st\<lparr>codec_context_m := avcodec_flush_buffers lib c1, allocator := h1,
                           events := events st @ evs
                             @ [flush_buffers, send_target (loop_video, ticket_t lib)]\<rparr>))
          \<and> run_loop lib ((loop_packet (index_m st), ticket) # rest) st
              = (if failed then Some r else run_loop lib rest (state_of r))
          \<and> (failed \<longrightarrow>
               run lib ((loop_packet (index_m st), ticket) # rest) st
                 = Some (finished (st\<lparr>codec_context_m := c1, allocator := h1,
                      events := events st @ evs
                        @ [log_exception, send_target (eof_video, ticket_t lib), agent_done]\<rparr>)))))
   \<and> run lib ((eof_packet (index_m st), ticket) # rest) st
        = Some (finished (st\<lparr>events := events st
              @ [send_target (eof_video, ticket_t lib), agent_done]\<rparr>))"
proof (intro conjI allI impI)
  show "iteration lib (loop_packet (index_m st), ticket) st = None
      \<longleftrightarrow> has_CODEC_CAP_DELAY lib (codec_context_m st)
          \<and> (\<forall>n. returns_frame lib (after_flushes lib n (codec_context_m st)))"
    by (simp only: loop_iteration on_loop_packet_None flush_frames_None_iff)
next
  show "run lib ((eof_packet (index_m st), ticket) # rest) st
      = Some (finished (st\<lparr>events := events st
            @ [send_target (eof_video, ticket_t lib), agent_done]\<rparr>))"
    by (simp add: run_def eof_iteration)
next
  fix r
  let ?pkt = "(loop_packet (index_m st), ticket)"
  assume "iteration lib ?pkt st = Some r"
  then have r: "on_loop_packet lib ticket st = Some r" by (simp only: loop_iteration)
  have rl: "run_loop lib (?pkt # rest) st
      = (case on_loop_packet lib ticket st of None \<Rightarrow> None
         | Some (continue_loop st1) \<Rightarrow> run_loop lib rest st1 | Some r \<Rightarrow> Some r)"
    by (simp add: loop_iteration)
  let ?goal = "\<lambda>evs failed c1 h1.
            (if has_CODEC_CAP_DELAY lib (codec_context_m st)
             then is_flush_events ticket evs
                  \<and> flushed lib (codec_context_m st) (allocator st)
                      (frames_of (sent_to_target evs)) failed c1 h1
             else evs = [] \<and> \<not> failed \<and> c1 = codec_context_m st \<and> h1 = allocator st)
          \<and> list_all (\<lambda>e. \<exists>d. fst e = frame d) (sent_to_target evs)
          \<and> r = (if failed
                 then thrown (st\<lparr>codec_context_m := c1, allocator := h1,
                        events := events st @ evs\<rparr>)
                 else continue_loop
                       (st\<lparr>codec_context_m := avcodec_flush_buffers lib c1, allocator := h1,
                           events := events st @ evs
                             @ [flush_buffers, send_target (loop_video, ticket_t lib)]\<rparr>))
          \<and> run_loop lib (?pkt # rest) st
              = (if failed then Some r else run_loop lib rest (state_of r))
          \<and> (failed \<longrightarrow>
               run lib (?pkt # rest) st
                 = Some (finished (st\<lparr>codec_context_m := c1, allocator := h1,
                      events := events st @ evs
                        @ [log_exception, send_target (eof_video, ticket_t lib), agent_done]\<rparr>)))"
  show "\<exists>evs failed c1 h1. ?goal evs failed c1 h1"
  proof (cases "has_CODEC_CAP_DELAY lib (codec_context_m st)")
    case False
    with r have r': "r = continue_loop
        (st\<lparr>codec_context_m := avcodec_flush_buffers lib (codec_context_m st),
            events := events st @ [flush_buffers, send_target (loop_video, ticket_t lib)]\<rparr>)"
      by (simp add: on_loop_packet_def)
    have "?goal [] False (codec_context_m st) (allocator st)"
      using False r r' rl by simp
    then show ?thesis by (intro exI)
  next
    case cap: True
    with r obtain r0 where r0: "flush_frames lib ticket st = Some r0"
      by (cases "flush_frames lib ticket st") (simp_all add: on_loop_packet_def)
    let ?s0 = "state_of r0"
    from flush_frames_exact [OF r0] obtain evs
      where e: "events ?s0 = events st @ evs" and fe: "is_flush_events ticket evs"
        and fl: "flushed lib (codec_context_m st) (allocator st) (frames_of (sent_to_target evs))
              (r0 = thrown ?s0) (codec_context_m ?s0) (allocator ?s0)"
        and k: "r0 = thrown ?s0 \<or> r0 = continue_loop ?s0"
        and ix: "index_m ?s0 = index_m st"
        and pr: "is_progressive_m ?s0 = is_progressive_m st"
      by (elim exE conjE)
    have s0: "?s0 = st\<lparr>codec_context_m := codec_context_m ?s0, allocator := allocator ?s0,
        events := events st @ evs\<rparr>"
      using ix pr e by (rule state_of_flush)
    from flush_tickets [OF fe] have fr: "list_all (\<lambda>e. \<exists>d. fst e = frame d) (sent_to_target evs)"
      by (simp add: list_all_iff)
    from k show ?thesis
    proof
      assume t: "r0 = thrown ?s0"
      with r r0 cap have r': "r = thrown ?s0"
        by (cases r0) (simp_all add: on_loop_packet_def)
      have "r = thrown (st\<lparr>codec_context_m := codec_context_m ?s0, allocator := allocator ?s0,
          events := events st @ evs\<rparr>)"
        using r' s0 by simp
      moreover have "run_loop lib (?pkt # rest) st = Some r"
        unfolding rl r r' by simp
      moreover from this have "run lib (?pkt # rest) st
          = Some (finished (?s0\<lparr>events := events ?s0
                @ [log_exception, send_target (eof_video, ticket_t lib), agent_done]\<rparr>))"
        by (simp add: run_def r')
      then have "run lib (?pkt # rest) st
          = Some (finished (st\<lparr>codec_context_m := codec_context_m ?s0, allocator := allocator ?s0,
                events := events st @ evs
                  @ [log_exception, send_target (eof_video, ticket_t lib), agent_done]\<rparr>))"
        by (subst (asm) (1) s0) (simp add: e)
      ultimately have "?goal evs True (codec_context_m ?s0) (allocator ?s0)"
        using cap fe fl fr t by simp
      then show ?thesis by (intro exI)
    next
      assume c: "r0 = continue_loop ?s0"
      then have nt: "r0 \<noteq> thrown ?s0" by (cases r0) simp_all
      from c r r0 cap have r': "r = continue_loop
          (?s0\<lparr>codec_context_m := avcodec_flush_buffers lib (codec_context_m ?s0),
               events := events ?s0 @ [flush_buffers, send_target (loop_video, ticket_t lib)]\<rparr>)"
        by (cases r0) (simp_all add: on_loop_packet_def)
      then have r'': "r = continue_loop
          (st\<lparr>codec_context_m := avcodec_flush_buffers lib (codec_context_m ?s0),
              allocator := allocator ?s0,
              events := events st @ evs
                @ [flush_buffers, send_target (loop_video, ticket_t lib)]\<rparr>)"
        by (subst (asm) (1) s0) (simp add: e)
      have "run_loop lib (?pkt # rest) st = run_loop lib rest (state_of r)"
        unfolding rl r by (simp add: r')
      with r'' have "?goal evs False (codec_context_m ?s0) (allocator ?s0)"
        using cap fe fl fr nt by simp
      then show ?thesis by (intro exI)
    qed
  qed
qed

text \<open>
  Claim C8, as amended. Every element sent to the target during the pass through the loop
  body for a received element is either a frame carrying the ticket of that element (the
  frame of a data packet, the flushed frames of a loop packet) or the \<open>loop_video\<close>
  element, which carries the default-constructed ticket \<open>ticket_t()\<close>.
\<close>
theorem frames_carry_packet_ticket:
  assumes "iteration lib (packet, ticket) st = Some r"
  shows "\<exists>evs. events (state_of r) = events st @ evs
     \<and> list_all (\<lambda>e. (\<exists>d. fst e = frame d \<and> snd e = ticket)
                     \<or> (fst e = loop_video \<and> snd e = ticket_t lib)) (sent_to_target evs)"
proof (cases "packet = loop_packet (index_m st)")
  case True
  with assms have ol: "on_loop_packet lib ticket st = Some r"
    by (simp add: iteration_def)
  let ?tail = "[flush_buffers, send_target (loop_video, ticket_t lib)]"
  show ?thesis
  proof (cases "has_CODEC_CAP_DELAY lib (codec_context_m st)")
    case False
    with ol have "r = continue_loop
        (st\<lparr>codec_context_m := avcodec_flush_buffers lib (codec_context_m st),
            events := events st @ ?tail\<rparr>)"
      by (simp add: on_loop_packet_def)
    then show ?thesis by (intro exI [of _ ?tail]) simp
  next
    case cap: True
    from ol cap obtain r0 where r0: "flush_frames lib ticket st = Some r0"
      by (cases "flush_frames lib ticket st") (simp_all add: on_loop_packet_def)
    from flush_frames_shape [OF r0] obtain evs
      where e1: "events (state_of r0) = events st @ evs"
        and fl: "is_flush_events ticket evs"
        and nb: "\<forall>s. r0 \<noteq> break_loop s"
      by blast
    from flush_tickets [OF fl]
    have tk: "list_all (\<lambda>e. (\<exists>d. fst e = frame d \<and> snd e = ticket)
        \<or> (fst e = loop_video \<and> snd e = ticket_t lib)) (sent_to_target evs)"
      by (simp add: list_all_iff)
    show ?thesis
    proof (cases r0)
      case (continue_loop st1)
      with ol cap r0 have r: "r = continue_loop
          (st1\<lparr>codec_context_m := avcodec_flush_buffers lib (codec_context_m st1),
               events := events st1 @ ?tail\<rparr>)"
        by (simp add: on_loop_packet_def)
      from e1 continue_loop have "events st1 = events st @ evs" by simp
      with r have "events (state_of r) = events st @ (evs @ ?tail)" by simp
      with tk show ?thesis
        by (intro exI [of _ "evs @ ?tail"]) (simp add: sent_to_target_append)
    next
      case (break_loop s)
      with nb show ?thesis by simp
    next
      case (thrown st1)
      with ol cap r0 have rr: "r = r0" by (simp add: on_loop_packet_def)
      with e1 tk show ?thesis by (intro exI [of _ evs]) simp
    qed
  qed
next
  case nl: False
  show ?thesis
  proof (cases "packet = eof_packet (index_m st)")
    case True
    with nl assms have "r = break_loop st" by (simp add: iteration_def)
    then show ?thesis by (intro exI [of _ "[]"]) simp
  next
    case False
    with nl assms have r: "r = on_data_packet lib (payload packet) ticket st"
      by (simp add: iteration_def)
    let ?dec = "decode_video2 (payload packet)"
    from on_data_packet_shape [of lib "payload packet" ticket st]
    obtain evs where e: "events (state_of r) = events st @ ?dec # evs"
      and sh: "evs = [] \<or> (\<exists>d. evs = [send_target (frame d, ticket), yield])
          \<or> (\<exists>d. evs = [log_repeat_pict, send_target (frame d, ticket), yield])"
      unfolding r by (elim exE conjE)
    from sh have "list_all (\<lambda>e. (\<exists>d. fst e = frame d \<and> snd e = ticket)
        \<or> (fst e = loop_video \<and> snd e = ticket_t lib)) (sent_to_target (?dec # evs))"
      by (elim disjE exE) simp_all
    with e show ?thesis by (intro exI [of _ "?dec # evs"]) simp
  qed
qed

lemma plane_sizes_Cons:
  "plane_sizes lib fr n (ht # hs)
     = size_t_add lib (size_t_mul lib (size_t_of_int lib (linesize fr n)) ht) 16
         # plane_sizes lib fr (Suc n) hs"
proof -
  have "[0..<length (ht # hs)] = 0 # map Suc [0..<length hs]"
    by (simp add: upt_conv_Cons map_Suc_upt del: upt_Suc)
  then show ?thesis
    by (simp add: plane_sizes_def comp_def del: upt_Suc)
qed

lemma dup_planes_spec:
  assumes fresh: "\<forall>h sz al. scalable_aligned_malloc lib h sz al \<notin> fst ` set h"
  shows "\<exists>rs d. fst (dup_planes lib hs n (p, h))
        = p\<lparr>pointee := (pointee p)\<lparr>data := d\<rparr>,
            org_ptrs := org_ptrs p @ map (data (pointee p)) [n..<n + length hs],
            real_ptrs := real_ptrs p @ rs\<rparr>
     \<and> snd (dup_planes lib hs n (p, h)) = h @ zip rs (plane_sizes lib (pointee p) n hs)
     \<and> length rs = length hs \<and> distinct rs \<and> set rs \<inter> fst ` set h = {}
     \<and> (\<forall>i. i < n \<or> n + length hs \<le> i \<longrightarrow> d i = data (pointee p) i)"
proof (induction hs arbitrary: n p h)
  case Nil
  show ?case
    by (intro exI [of _ "[]"] exI [of _ "data (pointee p)"]) (simp add: plane_sizes_def)
next
  case (Cons ht hs)
  define sz where "sz = size_t_mul lib (size_t_of_int lib (linesize (pointee p) n)) ht"
  define real where "real = scalable_aligned_malloc lib h (size_t_add lib sz 16) 32"
  define d1 where "d1 = (data (pointee p))(n := fast_memcpy_w_align_hack lib real (data (pointee p) n) sz)"
  define p1 where "p1 = p\<lparr>pointee := (pointee p)\<lparr>data := d1\<rparr>,
      org_ptrs := org_ptrs p @ [data (pointee p) n], real_ptrs := real_ptrs p @ [real]\<rparr>"
  define h1 where "h1 = h @ [(real, size_t_add lib sz 16)]"
  define ks where "ks = [Suc n..<Suc n + length hs]"
  have step: "dup_planes lib (ht # hs) n (p, h) = dup_planes lib hs (Suc n) (p1, h1)"
    by (simp add: dup_plane_def Let_def p1_def h1_def d1_def real_def sz_def)
  from Cons [of "Suc n" p1 h1] obtain rs d
    where f: "fst (dup_planes lib hs (Suc n) (p1, h1))
        = p1\<lparr>pointee := (pointee p1)\<lparr>data := d\<rparr>,
            org_ptrs := org_ptrs p1 @ map (data (pointee p1)) ks,
            real_ptrs := real_ptrs p1 @ rs\<rparr>"
      and s: "snd (dup_planes lib hs (Suc n) (p1, h1))
        = h1 @ zip rs (plane_sizes lib (pointee p1) (Suc n) hs)"
      and l: "length rs = length hs" and di: "distinct rs"
      and dj: "set rs \<inter> fst ` set h1 = {}"
      and dd: "\<forall>i. i < Suc n \<or> Suc n + length hs \<le> i \<longrightarrow> d i = data (pointee p1) i"
    unfolding ks_def by (elim exE conjE)
  have nf: "real \<notin> fst ` set h" unfolding real_def using fresh by simp
  have nks: "n \<notin> set ks" by (auto simp: ks_def)
  have org: "map (data (pointee p1)) ks = map (data (pointee p)) ks"
    using nks by (simp add: p1_def d1_def)
  have upt: "[n..<n + length (ht # hs)] = n # ks"
    by (simp add: ks_def upt_conv_Cons del: upt_Suc)
  have ps: "plane_sizes lib (pointee p1) (Suc n) hs = plane_sizes lib (pointee p) (Suc n) hs"
    by (simp add: plane_sizes_def p1_def)
  have sz1: "plane_sizes lib (pointee p) n (ht # hs)
      = size_t_add lib sz 16 # plane_sizes lib (pointee p) (Suc n) hs"
    by (simp add: plane_sizes_Cons sz_def)
  have c1: "fst (dup_planes lib (ht # hs) n (p, h))
      = p\<lparr>pointee := (pointee p)\<lparr>data := d\<rparr>,
          org_ptrs := org_ptrs p @ map (data (pointee p)) [n..<n + length (ht # hs)],
          real_ptrs := real_ptrs p @ (real # rs)\<rparr>"
    unfolding step f org upt by (simp add: p1_def)
  have c2: "snd (dup_planes lib (ht # hs) n (p, h))
      = h @ zip (real # rs) (plane_sizes lib (pointee p) n (ht # hs))"
    unfolding step s ps sz1 by (simp add: h1_def)
  have c3: "length (real # rs) = length (ht # hs)" using l by simp
  have rn: "real \<notin> set rs" using dj by (auto simp: h1_def)
  have c4: "distinct (real # rs)" using di rn by simp
  have "set rs \<inter> fst ` set h = {}" using dj by (auto simp: h1_def)
  with nf have c5: "set (real # rs) \<inter> fst ` set h = {}" by simp
  have c6: "\<forall>i. i < n \<or> n + length (ht # hs) \<le> i \<longrightarrow> d i = data (pointee p) i"
  proof (intro allI impI)
    fix i assume a: "i < n \<or> n + length (ht # hs) \<le> i"
    then have "i < Suc n \<or> Suc n + length hs \<le> i" by auto
    with dd have "d i = data (pointee p1) i" by blast
    moreover from a have "i \<noteq> n" by auto
    ultimately show "d i = data (pointee p) i" by (simp add: p1_def d1_def)
  qed
  from c1 c2 c3 c4 c5 c6 show ?case
    by (intro exI [of _ "real # rs"] exI [of _ d] conjI)
qed

lemma release_planes_ok:
  "distinct (map fst ros) \<Longrightarrow> fst ` set ros \<subseteq> fst ` set h
    \<Longrightarrow> release_planes ros n (fr, h)
         = Inr (fr\<lparr>data := restore ros n (data fr)\<rparr>, filter (\<lambda>b. fst b \<notin> fst ` set ros) h)"
proof (induction ros arbitrary: n fr h)
  case Nil
  then show ?case by simp
next
  case (Cons ro ros)
  let ?h = "filter (\<lambda>b. fst b \<noteq> fst ro) h"
  from Cons.prems have m: "fst ro \<in> fst ` set h" by simp
  from Cons.prems have dr: "distinct (map fst ros)" by simp
  moreover have "fst ` set ros \<subseteq> fst ` set ?h"
  proof
    fix a assume a: "a \<in> fst ` set ros"
    with Cons.prems have "a \<in> fst ` set h" by auto
    from Cons.prems have "fst ro \<notin> fst ` set ros" by simp
    with a have "a \<noteq> fst ro" by blast
    with \<open>a \<in> fst ` set h\<close> show "a \<in> fst ` set ?h" by force
  qed
  ultimately have "release_planes ros (Suc n) (fr\<lparr>data := (data fr)(n := snd ro)\<rparr>, ?h)
      = Inr (fr\<lparr>data := (data fr)(n := snd ro)\<rparr>
               \<lparr>data := restore ros (Suc n) (data (fr\<lparr>data := (data fr)(n := snd ro)\<rparr>))\<rparr>,
             filter (\<lambda>b. fst b \<notin> fst ` set ros) ?h)"
    by (rule Cons.IH)
  moreover have "filter (\<lambda>b. fst b \<notin> fst ` set ros) ?h
      = filter (\<lambda>b. fst b \<notin> fst ` set (ro # ros)) h"
    by (simp add: conj_commute)
  ultimately show ?case using m by simp
qed

lemma release_planes_missing:
  "ros \<noteq> [] \<Longrightarrow> fst (hd ros) \<notin> fst ` set h
    \<Longrightarrow> release_planes ros n (fr, h) = Inl (invalid_free (fst (hd ros)))"
  by (cases ros) simp_all

lemma restore_zip:
  "length rs = length os
    \<Longrightarrow> restore (zip rs os) n d i = (if n \<le> i \<and> i < n + length os then os ! (i - n) else d i)"
proof (induction rs arbitrary: os n d)
  case Nil
  then show ?case by simp
next
  case (Cons r rs)
  then obtain ob os' where os: "os = ob # os'" by (cases os) auto
  with Cons.prems have "length rs = length os'" by simp
  then have IH: "restore (zip rs os') (Suc n) (d(n := ob)) i
      = (if Suc n \<le> i \<and> i < Suc n + length os' then os' ! (i - Suc n) else (d(n := ob)) i)"
    by (rule Cons.IH)
  show ?case unfolding os by (simp add: IH nth_Cons' Suc_diff_le)
qed

lemma dup_frame_spec:
  assumes fresh: "\<forall>h sz al. scalable_aligned_malloc lib h sz al \<notin> fst ` set h"
    and dup: "dup_frame lib fr h0 = (p, h1)"
  shows "\<exists>d. p = \<lparr>pointee = fr\<lparr>data := d\<rparr>,
                   org_ptrs = map (data fr)
                     [0..<length (get_pixel_format_desc lib (format fr) (width fr) (height fr))],
                   real_ptrs = real_ptrs p,
                   count = length (get_pixel_format_desc lib (format fr) (width fr) (height fr)),
                   use_count = 1\<rparr>
     \<and> h1 = h0 @ zip (real_ptrs p)
            (plane_sizes lib fr 0 (get_pixel_format_desc lib (format fr) (width fr) (height fr)))
     \<and> length (real_ptrs p) = length (get_pixel_format_desc lib (format fr) (width fr) (height fr))
     \<and> distinct (real_ptrs p) \<and> set (real_ptrs p) \<inter> fst ` set h0 = {}
     \<and> (\<forall>i. length (get_pixel_format_desc lib (format fr) (width fr) (height fr)) \<le> i
            \<longrightarrow> d i = data fr i)"
proof -
  define planes where "planes = get_pixel_format_desc lib (format fr) (width fr) (height fr)"
  define p0 where "p0 = \<lparr>pointee = fr, org_ptrs = [], real_ptrs = [], count = length planes,
      use_count = 1\<rparr>"
  from dup have d: "dup_planes lib planes 0 (p0, h0) = (p, h1)"
    by (simp add: dup_frame_def Let_def planes_def p0_def)
  from dup_planes_spec [OF fresh, of planes 0 p0 h0] obtain rs d
    where f: "fst (dup_planes lib planes 0 (p0, h0))
        = p0\<lparr>pointee := (pointee p0)\<lparr>data := d\<rparr>,
            org_ptrs := org_ptrs p0 @ map (data (pointee p0)) [0..<0 + length planes],
            real_ptrs := real_ptrs p0 @ rs\<rparr>"
      and s: "snd (dup_planes lib planes 0 (p0, h0)) = h0 @ zip rs (plane_sizes lib (pointee p0) 0 planes)"
      and l: "length rs = length planes" and di: "distinct rs"
      and dj: "set rs \<inter> fst ` set h0 = {}"
      and dd: "\<forall>i. i < 0 \<or> 0 + length planes \<le> i \<longrightarrow> d i = data (pointee p0) i"
    by (elim exE conjE)
  from f d have p: "p = \<lparr>pointee = fr\<lparr>data := d\<rparr>, org_ptrs = map (data fr) [0..<length planes],
      real_ptrs = rs, count = length planes, use_count = 1\<rparr>"
    by (simp add: p0_def)
  then have rp: "real_ptrs p = rs" by simp
  from s d have h: "h1 = h0 @ zip rs (plane_sizes lib fr 0 planes)" by (simp add: p0_def)
  from dd have dd': "\<forall>i. length planes \<le> i \<longrightarrow> d i = data fr i" by (simp add: p0_def)
  from p h l di dj dd' show ?thesis
    unfolding planes_def [symmetric] rp by (intro exI [of _ d] conjI)
qed

lemma use_count_copies: "use_count ((copy_ptr ^^ k) p) = use_count p + k"
  by (induction k) (simp_all add: copy_ptr_def)

lemma release_copy: "0 < use_count q \<Longrightarrow> release_ptr (copy_ptr q) h = Inr (q, h)"
  by (simp add: release_ptr_def copy_ptr_def)

lemma plane_sizes_exact:
  assumes "\<forall>k<length planes. 0 \<le> linesize fr k \<and> linesize fr k < 2 ^ size_t_bits lib
      \<and> nat (linesize fr k) * planes ! k + 16 < 2 ^ size_t_bits lib"
  shows "plane_sizes lib fr 0 planes
     = map (\<lambda>k. nat (linesize fr k) * planes ! k + 16) [0..<length planes]"
proof -
  have "size_t_add lib (size_t_mul lib (size_t_of_int lib (linesize fr k)) (planes ! k)) 16
      = nat (linesize fr k) * planes ! k + 16" if k: "k < length planes" for k
  proof -
    from assms k have a: "0 \<le> linesize fr k" "linesize fr k < 2 ^ size_t_bits lib"
      and b: "nat (linesize fr k) * planes ! k + 16 < 2 ^ size_t_bits lib"
      by auto
    from a have "size_t_of_int lib (linesize fr k) = nat (linesize fr k)"
      by (simp add: size_t_of_int_def)
    moreover from b have "nat (linesize fr k) * planes ! k < 2 ^ size_t_bits lib" by simp
    ultimately show ?thesis using b by (simp add: size_t_mul_def size_t_add_def)
  qed
  then show ?thesis by (simp add: plane_sizes_def)
qed

text \<open>
  Claim C9. Let the allocator return addresses that are not live, let the pixel format have
  at most 4 planes, let \<open>dup_frame\<close> on heap \<open>h0\<close> return the pointer \<open>p\<close> and the heap \<open>h1\<close>,
  and let \<open>h2\<close> be any later heap in which the buffers of \<open>p\<close> are still live. Then
  \<open>dup_frame\<close> allocated one new block per plane, and nothing else, of
  \<open>linesize * plane height + 16\<close> bytes computed in \<open>size_t\<close> (exactly that number when it does
  not overflow); \<open>p\<close> has one holder; releasing a holder that is not the last changes no
  heap; the release by the last holder, on \<open>h2\<close>, succeeds, frees exactly the blocks
  \<open>dup_frame\<close> allocated and leaves the frame object as it was before \<open>dup_frame\<close> (every plane
  pointer restored); released on \<open>h1\<close>, that gives \<open>h0\<close> back (no leak); and running the
  deleter once more would free a block that is not live.
\<close>
theorem dup_frame_release_frees_and_restores:
  assumes fresh: "\<forall>h sz al. scalable_aligned_malloc lib h sz al \<notin> fst ` set h"
    and planes: "length (get_pixel_format_desc lib (format fr) (width fr) (height fr)) \<le> 4"
    and dup: "dup_frame lib fr h0 = (p, h1)"
    and live: "set (real_ptrs p) \<subseteq> fst ` set h2"
  shows "count p = length (get_pixel_format_desc lib (format fr) (width fr) (height fr))
     \<and> length (real_ptrs p) = count p \<and> distinct (real_ptrs p)
     \<and> set (real_ptrs p) \<inter> fst ` set h0 = {}
     \<and> h1 = h0 @ zip (real_ptrs p)
            (plane_sizes lib fr 0 (get_pixel_format_desc lib (format fr) (width fr) (height fr)))
     \<and> ((\<forall>k<count p. 0 \<le> linesize fr k \<and> linesize fr k < 2 ^ size_t_bits lib
            \<and> nat (linesize fr k)
                 * get_pixel_format_desc lib (format fr) (width fr) (height fr) ! k + 16
               < 2 ^ size_t_bits lib)
          \<longrightarrow> map snd (drop (length h0) h1)
               = map (\<lambda>k. nat (linesize fr k)
                      * get_pixel_format_desc lib (format fr) (width fr) (height fr) ! k + 16)
                   [0..<count p])
     \<and> use_count p = 1
     \<and> (\<forall>k h. release_ptr ((copy_ptr ^^ Suc k) p) h = Inr ((copy_ptr ^^ k) p, h))
     \<and> release_ptr p h2
          = Inr (p\<lparr>pointee := fr, use_count := 0\<rparr>, filter (\<lambda>b. fst b \<notin> set (real_ptrs p)) h2)
     \<and> filter (\<lambda>b. fst b \<notin> set (real_ptrs p)) h1 = h0
     \<and> (0 < count p
          \<longrightarrow> deleter p (filter (\<lambda>b. fst b \<notin> set (real_ptrs p)) h2)
               = Inl (invalid_free (hd (real_ptrs p))))"
proof -
  define pl where "pl = get_pixel_format_desc lib (format fr) (width fr) (height fr)"
  define rs where "rs = real_ptrs p"
  define os where "os = map (data fr) [0..<length pl]"
  from dup_frame_spec [OF fresh dup] obtain d
    where p: "p = \<lparr>pointee = fr\<lparr>data := d\<rparr>, org_ptrs = os, real_ptrs = rs,
        count = length pl, use_count = 1\<rparr>"
      and h1: "h1 = h0 @ zip rs (plane_sizes lib fr 0 pl)"
      and l: "length rs = length pl" and di: "distinct rs"
      and dj: "set rs \<inter> fst ` set h0 = {}"
      and dd: "\<forall>i. length pl \<le> i \<longrightarrow> d i = data fr i"
    unfolding pl_def [symmetric] rs_def [symmetric] os_def [symmetric] by (elim exE conjE)
  have lo: "length os = length pl" by (simp add: os_def)
  have cnt: "count p = length pl" by (simp add: p)
  have uc: "use_count p = 1" by (simp add: p)
  have zfst: "map fst (zip rs os) = rs" using l lo by (simp add: map_fst_zip)
  have tk: "take (count p) (zip (real_ptrs p) (org_ptrs p)) = zip rs os"
    using l lo by (simp add: p)
  have sfst: "fst ` set (zip rs os) = set rs"
    using zfst by (metis set_map)
  have rest: "restore (zip rs os) 0 d = data fr"
  proof
    fix i
    show "restore (zip rs os) 0 d i = data fr i"
    proof (cases "i < length pl")
      case True
      then show ?thesis using l lo by (simp add: restore_zip os_def)
    next
      case False
      with dd show ?thesis using l lo by (simp add: restore_zip)
    qed
  qed
  have del: "deleter p h = Inr (fr, filter (\<lambda>b. fst b \<notin> set rs) h)"
    if "set rs \<subseteq> fst ` set h" for h
  proof -
    have "release_planes (zip rs os) 0 (fr\<lparr>data := d\<rparr>, h)
        = Inr (fr\<lparr>data := d\<rparr>\<lparr>data := restore (zip rs os) 0 (data (fr\<lparr>data := d\<rparr>))\<rparr>,
               filter (\<lambda>b. fst b \<notin> fst ` set (zip rs os)) h)"
      using di that by (intro release_planes_ok) (simp_all add: zfst sfst)
    then show ?thesis
      unfolding deleter_def tk by (simp add: p rest sfst)
  qed
  have c5: "(\<forall>k<count p. 0 \<le> linesize fr k \<and> linesize fr k < 2 ^ size_t_bits lib
        \<and> nat (linesize fr k) * pl ! k + 16 < 2 ^ size_t_bits lib)
      \<longrightarrow> map snd (drop (length h0) h1)
           = map (\<lambda>k. nat (linesize fr k) * pl ! k + 16) [0..<count p]"
  proof
    assume "\<forall>k<count p. 0 \<le> linesize fr k \<and> linesize fr k < 2 ^ size_t_bits lib
        \<and> nat (linesize fr k) * pl ! k + 16 < 2 ^ size_t_bits lib"
    then have "plane_sizes lib fr 0 pl = map (\<lambda>k. nat (linesize fr k) * pl ! k + 16) [0..<length pl]"
      unfolding cnt by (rule plane_sizes_exact)
    moreover have "length (plane_sizes lib fr 0 pl) = length rs"
      using l by (simp add: plane_sizes_def)
    ultimately show "map snd (drop (length h0) h1)
        = map (\<lambda>k. nat (linesize fr k) * pl ! k + 16) [0..<count p]"
      unfolding h1 cnt by (simp add: map_snd_zip)
  qed
  have c7: "\<forall>k h. release_ptr ((copy_ptr ^^ Suc k) p) h = Inr ((copy_ptr ^^ k) p, h)"
  proof (intro allI)
    fix k h
    have "0 < use_count ((copy_ptr ^^ k) p)" by (simp add: use_count_copies uc)
    then show "release_ptr ((copy_ptr ^^ Suc k) p) h = Inr ((copy_ptr ^^ k) p, h)"
      by (simp add: release_copy)
  qed
  from live have live': "set rs \<subseteq> fst ` set h2" by (simp add: rs_def)
  have c8: "release_ptr p h2
      = Inr (p\<lparr>pointee := fr, use_count := 0\<rparr>, filter (\<lambda>b. fst b \<notin> set rs) h2)"
    using del [OF live'] uc by (simp add: release_ptr_def)
  have "filter (\<lambda>b. fst b \<notin> set rs) h0 = h0"
    using dj by (intro filter_True) auto
  moreover have "filter (\<lambda>b. fst b \<notin> set rs) (zip rs (plane_sizes lib fr 0 pl)) = []"
    by (auto simp: filter_empty_conv dest: set_zip_leftD)
  ultimately have c9: "filter (\<lambda>b. fst b \<notin> set rs) h1 = h0" by (simp add: h1)
  have c10: "0 < count p
      \<longrightarrow> deleter p (filter (\<lambda>b. fst b \<notin> set rs) h2) = Inl (invalid_free (hd rs))"
  proof
    assume "0 < count p"
    with cnt l lo have ne: "zip rs os \<noteq> []" by (cases rs; cases os) auto
    with l lo have hz: "fst (hd (zip rs os)) = hd rs" by (cases rs; cases os) auto
    from ne l have "hd rs \<in> set rs" by (cases rs) auto
    then have "fst (hd (zip rs os)) \<notin> fst ` set (filter (\<lambda>b. fst b \<notin> set rs) h2)"
      unfolding hz by auto
    from release_planes_missing [OF ne this]
    show "deleter p (filter (\<lambda>b. fst b \<notin> set rs) h2) = Inl (invalid_free (hd rs))"
      unfolding deleter_def tk hz by (simp add: p)
  qed
  from cnt l di dj h1 c5 uc c7 c8 c9 c10 show ?thesis
    unfolding pl_def [symmetric] rs_def [symmetric] cnt by (intro conjI)
qed


lemma continued_stateD: "continued_state r = Some s \<Longrightarrow> r = Some (continue_loop s)"
  by (cases r rule: continued_state.cases) simp_all

lemma thrown_stateD: "thrown_state r = Some s \<Longrightarrow> r = Some (thrown s)"
  by (cases r rule: thrown_state.cases) simp_all

lemmas worker_eval = flush_frames.simps decode_def emit_frame_def dup_frame_def dup_plane_def
  iteration_def on_loop_packet_def on_data_packet_def run_def Let_def size_t_of_int_def
  size_t_mul_def size_t_add_def sent_shapes_def shape_def

lemmas demo_worker_defs = demo_lib_def demo_worker_def demo_decode_def demo_frame_def
  demo_malloc_def


text \<open>Claim C2, witness: a codec holding two frames receives a loop packet and ends the flush with no frame; a codec holding one frame receives a loop packet and fails on the second flush decode.\<close>
theorem loop_packet_flushes_then_signals_witness:
  "(\<exists>r evs c1 h1.
      iteration demo_lib (loop_packet (index_m (demo_worker 2)), 21) (demo_worker 2) = Some r
      \<and> has_CODEC_CAP_DELAY demo_lib (codec_context_m (demo_worker 2))
      \<and> sent_shapes (events (state_of r)) = [(frame (), 21), (frame (), 21), (loop_video, 0)]
      \<and> is_flush_events 21 evs
      \<and> flushed demo_lib (codec_context_m (demo_worker 2)) (allocator (demo_worker 2))
          (frames_of (sent_to_target evs)) False c1 h1
      \<and> r = continue_loop
          ((demo_worker 2)\<lparr>codec_context_m := avcodec_flush_buffers demo_lib c1, allocator := h1,
             events := events (demo_worker 2) @ evs
               @ [flush_buffers, send_target (loop_video, ticket_t demo_lib)]\<rparr>)
      \<and> run_loop demo_lib [(loop_packet (index_m (demo_worker 2)), 21), (eof_packet 0, 22)]
            (demo_worker 2)
          = run_loop demo_lib [(eof_packet 0, 22)] (state_of r))
   \<and> (\<exists>r evs c1 h1.
      iteration demo_broken_lib (loop_packet (index_m (demo_worker 1)), 21) (demo_worker 1) = Some r
      \<and> has_CODEC_CAP_DELAY demo_broken_lib (codec_context_m (demo_worker 1))
      \<and> sent_shapes (events (state_of r)) = [(frame (), 21)]
      \<and> is_flush_events 21 evs
      \<and> flushed demo_broken_lib (codec_context_m (demo_worker 1)) (allocator (demo_worker 1))
          (frames_of (sent_to_target evs)) True c1 h1
      \<and> r = thrown ((demo_worker 1)\<lparr>codec_context_m := c1, allocator := h1,
             events := events (demo_worker 1) @ evs\<rparr>)
      \<and> run demo_broken_lib [(loop_packet (index_m (demo_worker 1)), 21), (eof_packet 0, 22)]
            (demo_worker 1)
          = Some (finished ((demo_worker 1)\<lparr>codec_context_m := c1, allocator := h1,
               events := events (demo_worker 1) @ evs
                 @ [log_exception, send_target (eof_video, ticket_t demo_broken_lib),
                    agent_done]\<rparr>)))"
proof (intro conjI)
  let ?st = "demo_worker 2"
  have ix: "index_m ?st = 0" by (simp add: demo_worker_defs)
  have "map_option (sent_shapes \<circ> events)
      (continued_state (iteration demo_lib (loop_packet 0, 21) ?st))
      = Some [(frame (), 21), (frame (), 21), (loop_video, 0)]"
    by (simp add: worker_eval demo_worker_defs)
  then obtain s where cs: "continued_state (iteration demo_lib (loop_packet 0, 21) ?st) = Some s"
    and sh: "sent_shapes (events s) = [(frame (), 21), (frame (), 21), (loop_video, 0)]"
    by auto
  from cs have "iteration demo_lib (loop_packet 0, 21) ?st = Some (continue_loop s)"
    by (rule continued_stateD)
  then have r: "iteration demo_lib (loop_packet (index_m ?st), 21) ?st = Some (continue_loop s)"
    by (simp only: ix)
  have cap: "has_CODEC_CAP_DELAY demo_lib (codec_context_m ?st)"
    by (simp add: demo_worker_defs)
  note t = loop_packet_flushes_then_signals [where lib = demo_lib and st = ?st and ticket = 21
      and rest = "[(eof_packet 0, 22)]", THEN conjunct2, THEN conjunct1, rule_format, OF r]
  from t [unfolded if_P [OF cap]] obtain evs failed c1 h1
    where fe: "is_flush_events 21 evs"
      and fl: "flushed demo_lib (codec_context_m ?st) (allocator ?st)
          (frames_of (sent_to_target evs)) failed c1 h1"
      and req: "continue_loop s = (if failed
                 then thrown (?st\<lparr>codec_context_m := c1, allocator := h1,
                        events := events ?st @ evs\<rparr>)
                 else continue_loop
                       (?st\<lparr>codec_context_m := avcodec_flush_buffers demo_lib c1, allocator := h1,
                           events := events ?st @ evs
                             @ [flush_buffers, send_target (loop_video, ticket_t demo_lib)]\<rparr>))"
      and rl: "run_loop demo_lib ((loop_packet (index_m ?st), 21) # [(eof_packet 0, 22)]) ?st
              = (if failed then Some (continue_loop s)
                 else run_loop demo_lib [(eof_packet 0, 22)] (state_of (continue_loop s)))"
    by (elim exE conjE)
  from req have nf: "\<not> failed" by (cases failed) simp_all
  from req nf have req': "continue_loop s = continue_loop
          (?st\<lparr>codec_context_m := avcodec_flush_buffers demo_lib c1, allocator := h1,
             events := events ?st @ evs
               @ [flush_buffers, send_target (loop_video, ticket_t demo_lib)]\<rparr>)"
    by (simp only: if_False)
  from rl nf have rl': "run_loop demo_lib
        [(loop_packet (index_m ?st), 21), (eof_packet 0, 22)] ?st
      = run_loop demo_lib [(eof_packet 0, 22)] (state_of (continue_loop s))"
    by (simp only: if_False)
  from fl nf have fl': "flushed demo_lib (codec_context_m ?st) (allocator ?st)
          (frames_of (sent_to_target evs)) False c1 h1"
    by simp
  have sh': "sent_shapes (events (state_of (continue_loop s)))
      = [(frame (), 21), (frame (), 21), (loop_video, 0)]"
    using sh by simp
  from r cap sh' fe fl' req' rl'
  show "\<exists>r evs c1 h1.
      iteration demo_lib (loop_packet (index_m ?st), 21) ?st = Some r
      \<and> has_CODEC_CAP_DELAY demo_lib (codec_context_m ?st)
      \<and> sent_shapes (events (state_of r)) = [(frame (), 21), (frame (), 21), (loop_video, 0)]
      \<and> is_flush_events 21 evs
      \<and> flushed demo_lib (codec_context_m ?st) (allocator ?st)
          (frames_of (sent_to_target evs)) False c1 h1
      \<and> r = continue_loop
          (?st\<lparr>codec_context_m := avcodec_flush_buffers demo_lib c1, allocator := h1,
             events := events ?st @ evs
               @ [flush_buffers, send_target (loop_video, ticket_t demo_lib)]\<rparr>)
      \<and> run_loop demo_lib [(loop_packet (index_m ?st), 21), (eof_packet 0, 22)] ?st
          = run_loop demo_lib [(eof_packet 0, 22)] (state_of r)"
    by (intro exI [of _ "continue_loop s"] exI [of _ evs] exI [of _ c1] exI [of _ h1] conjI)
next
  let ?st = "demo_worker 1"
  have ix: "index_m ?st = 0" by (simp add: demo_worker_defs)
  have "map_option (sent_shapes \<circ> events)
      (thrown_state (iteration demo_broken_lib (loop_packet 0, 21) ?st))
      = Some [(frame (), 21)]"
    by (simp add: worker_eval demo_worker_defs demo_broken_lib_def)
  then obtain s where cs: "thrown_state (iteration demo_broken_lib (loop_packet 0, 21) ?st) = Some s"
    and sh: "sent_shapes (events s) = [(frame (), 21)]"
    by auto
  from cs have "iteration demo_broken_lib (loop_packet 0, 21) ?st = Some (thrown s)"
    by (rule thrown_stateD)
  then have r: "iteration demo_broken_lib (loop_packet (index_m ?st), 21) ?st = Some (thrown s)"
    by (simp only: ix)
  have cap: "has_CODEC_CAP_DELAY demo_broken_lib (codec_context_m ?st)"
    by (simp add: demo_worker_defs demo_broken_lib_def)
  note t = loop_packet_flushes_then_signals [where lib = demo_broken_lib and st = ?st
      and ticket = 21 and rest = "[(eof_packet 0, 22)]", THEN conjunct2, THEN conjunct1,
      rule_format, OF r]
  from t [unfolded if_P [OF cap]] obtain evs failed c1 h1
    where fe: "is_flush_events 21 evs"
      and fl: "flushed demo_broken_lib (codec_context_m ?st) (allocator ?st)
          (frames_of (sent_to_target evs)) failed c1 h1"
      and req: "thrown s = (if failed
                 then thrown (?st\<lparr>codec_context_m := c1, allocator := h1,
                        events := events ?st @ evs\<rparr>)
                 else continue_loop
                       (?st\<lparr>codec_context_m := avcodec_flush_buffers demo_broken_lib c1,
                           allocator := h1,
                           events := events ?st @ evs
                             @ [flush_buffers, send_target (loop_video, ticket_t demo_broken_lib)]\<rparr>))"
      and rn: "failed \<longrightarrow>
               run demo_broken_lib ((loop_packet (index_m ?st), 21) # [(eof_packet 0, 22)]) ?st
                 = Some (finished (?st\<lparr>codec_context_m := c1, allocator := h1,
                      events := events ?st @ evs
                        @ [log_exception, send_target (eof_video, ticket_t demo_broken_lib),
                           agent_done]\<rparr>))"
    by (elim exE conjE)
  from req have f: "failed" by (cases failed) simp_all
  from req f have req': "thrown s = thrown (?st\<lparr>codec_context_m := c1, allocator := h1,
                        events := events ?st @ evs\<rparr>)"
    by (simp only: if_True)
  from rn f have rn': "run demo_broken_lib
        [(loop_packet (index_m ?st), 21), (eof_packet 0, 22)] ?st
      = Some (finished (?st\<lparr>codec_context_m := c1, allocator := h1,
            events := events ?st @ evs
              @ [log_exception, send_target (eof_video, ticket_t demo_broken_lib),
                 agent_done]\<rparr>))"
    by simp
  from fl f have fl': "flushed demo_broken_lib (codec_context_m ?st) (allocator ?st)
          (frames_of (sent_to_target evs)) True c1 h1"
    by simp
  have sh': "sent_shapes (events (state_of (thrown s))) = [(frame (), 21)]"
    using sh by simp
  from r cap sh' fe fl' req' rn'
  show "\<exists>r evs c1 h1.
      iteration demo_broken_lib (loop_packet (index_m ?st), 21) ?st = Some r
      \<and> has_CODEC_CAP_DELAY demo_broken_lib (codec_context_m ?st)
      \<and> sent_shapes (events (state_of r)) = [(frame (), 21)]
      \<and> is_flush_events 21 evs
      \<and> flushed demo_broken_lib (codec_context_m ?st) (allocator ?st)
          (frames_of (sent_to_target evs)) True c1 h1
      \<and> r = thrown (?st\<lparr>codec_context_m := c1, allocator := h1,
             events := events ?st @ evs\<rparr>)
      \<and> run demo_broken_lib [(loop_packet (index_m ?st), 21), (eof_packet 0, 22)] ?st
          = Some (finished (?st\<lparr>codec_context_m := c1, allocator := h1,
               events := events ?st @ evs
                 @ [log_exception, send_target (eof_video, ticket_t demo_broken_lib),
                    agent_done]\<rparr>))"
    by (intro exI [of _ "thrown s"] exI [of _ evs] exI [of _ c1] exI [of _ h1] conjI)
qed

text \<open>
  Claim C2, counterexample to the claim as stated (for every loop packet). The codec has
  delay and its flush decode fails once the held frame is out. For the loop packet with
  ticket 21 and one frame held back, the pass ends with the exception after the flushed
  frame, the codec is not flushed and no \<open>loop_video\<close> element is sent; the data packet that
  follows is never received, and \<open>run\<close> ends with the EofSignal. With no frame held back,
  the EofSignal is all that is sent.
\<close>
theorem failed_flush_ends_worker_without_loop_signal:
  "has_CODEC_CAP_DELAY demo_broken_lib (codec_context_m (demo_worker 1))
   \<and> map_option (sent_shapes \<circ> events)
        (thrown_state (iteration demo_broken_lib (loop_packet 0, 21) (demo_worker 1)))
      = Some [(frame (), 21)]
   \<and> map_option ((\<in>) flush_buffers \<circ> set \<circ> events)
        (thrown_state (iteration demo_broken_lib (loop_packet 0, 21) (demo_worker 1)))
      = Some False
   \<and> map_option (sent_shapes \<circ> events)
        (finished_state (run demo_broken_lib [(loop_packet 0, 21), (data_packet 0 5, 22)]
           (demo_worker 1)))
      = Some [(frame (), 21), (eof_video, 0)]
   \<and> map_option (sent_shapes \<circ> events)
        (finished_state (run demo_broken_lib [(loop_packet 0, 21), (data_packet 0 5, 22)]
           (demo_worker 0)))
      = Some [(eof_video, 0)]"
  by (simp add: worker_eval demo_worker_defs demo_broken_lib_def)

text \<open>
  Claim C8, counterexample: for the loop packet with ticket 21 the two flushed frames
  carry 21, and the LoopSignal carries the default ticket 0.
\<close>
theorem loop_signal_drops_ticket:
  "map_option (sent_shapes \<circ> events \<circ> state_of)
      (iteration demo_lib (loop_packet 0, 21) (demo_worker 2))
    = Some [(frame (), 21), (frame (), 21), (loop_video, 0)]
   \<and> (0 :: nat) \<noteq> 21"
  by (simp add: worker_eval demo_worker_defs)

text \<open>Claim C8, witness: a loop packet with ticket 33 for a codec holding one frame.\<close>
theorem frames_carry_packet_ticket_witness:
  "\<exists>r. iteration demo_lib (loop_packet 0, 33) (demo_worker 1) = Some r
     \<and> sent_shapes (events (state_of r)) = [(frame (), 33), (loop_video, 0)]
     \<and> (\<exists>evs. events (state_of r) = events (demo_worker 1) @ evs
            \<and> list_all (\<lambda>e. (\<exists>d. fst e = frame d \<and> snd e = 33)
                            \<or> (fst e = loop_video \<and> snd e = ticket_t demo_lib))
                 (sent_to_target evs))"
proof -
  have "map_option (sent_shapes \<circ> events \<circ> state_of)
      (iteration demo_lib (loop_packet 0, 33) (demo_worker 1))
      = Some [(frame (), 33), (loop_video, 0)]"
    by (simp add: worker_eval demo_worker_defs)
  then obtain r where r: "iteration demo_lib (loop_packet 0, 33) (demo_worker 1) = Some r"
    and sh: "sent_shapes (events (state_of r)) = [(frame (), 33), (loop_video, 0)]"
    by auto
  from frames_carry_packet_ticket [OF r] r sh show ?thesis by (intro exI [of _ r] conjI)
qed

lemma fold_max_ge: "(a :: nat) \<le> fold max xs a \<and> (\<forall>x\<in>set xs. x \<le> fold max xs a)"
proof (induction xs arbitrary: a)
  case Nil
  then show ?case by simp
next
  case (Cons y ys)
  from Cons [of "max y a"] show ?case by auto
qed

lemma demo_malloc_fresh: "\<forall>h sz al. scalable_aligned_malloc demo_lib h sz al \<notin> fst ` set h"
proof (intro allI notI)
  fix h :: heap and sz al :: nat
  assume "scalable_aligned_malloc demo_lib h sz al \<in> fst ` set h"
  then obtain b where b: "b \<in> set h" and e: "fst b = demo_malloc h sz al"
    by (auto simp: demo_lib_def)
  let ?m = "fold max (map (\<lambda>b. (fst b + snd b) div 32) h) 0"
  from b have "(fst b + snd b) div 32 \<le> ?m"
    using fold_max_ge [of 0 "map (\<lambda>b. (fst b + snd b) div 32) h"] by auto
  moreover have "fst b + snd b < 32 * Suc ((fst b + snd b) div 32)"
    by presburger
  ultimately have "fst b + snd b < 32 * Suc ?m"
    by (meson Suc_le_mono less_le_trans mult_le_mono2)
  with e show False by (simp add: demo_malloc_def)
qed

lemma demo_dup:
  "real_ptrs (fst (dup_frame demo_lib demo_frame [])) = [32, 96, 128]
   \<and> snd (dup_frame demo_lib demo_frame []) = [(32, 32), (96, 24), (128, 24)]
   \<and> count (fst (dup_frame demo_lib demo_frame [])) = 3"
  by (simp add: worker_eval demo_worker_defs)

text \<open>
  Claim C9, witness: a frame of three planes is duplicated on the empty heap; another
  block is allocated before the release, and stays.
\<close>
theorem dup_frame_release_frees_and_restores_witness:
  "(\<forall>h sz al. scalable_aligned_malloc demo_lib h sz al \<notin> fst ` set h)
   \<and> length (get_pixel_format_desc demo_lib (format demo_frame) (width demo_frame)
        (height demo_frame)) \<le> 4
   \<and> real_ptrs (fst (dup_frame demo_lib demo_frame [])) = [32, 96, 128]
   \<and> snd (dup_frame demo_lib demo_frame []) = [(32, 32), (96, 24), (128, 24)]
   \<and> set (real_ptrs (fst (dup_frame demo_lib demo_frame [])))
        \<subseteq> fst ` set ([(32, 32), (4096, 100), (96, 24), (128, 24)] :: heap)
   \<and> release_ptr (fst (dup_frame demo_lib demo_frame []))
        [(32, 32), (4096, 100), (96, 24), (128, 24)]
       = Inr ((fst (dup_frame demo_lib demo_frame []))\<lparr>pointee := demo_frame, use_count := 0\<rparr>,
              [(4096, 100)])
   \<and> deleter (fst (dup_frame demo_lib demo_frame [])) [(4096, 100)] = Inl (invalid_free 32)"
proof -
  define p where "p = fst (dup_frame demo_lib demo_frame [])"
  define h1 where "h1 = snd (dup_frame demo_lib demo_frame [])"
  define h2 :: heap where "h2 = [(32, 32), (4096, 100), (96, 24), (128, 24)]"
  have rp: "real_ptrs p = [32, 96, 128]" and hh: "h1 = [(32, 32), (96, 24), (128, 24)]"
    and cp: "count p = 3"
    unfolding p_def h1_def using demo_dup by simp_all
  have pl: "length (get_pixel_format_desc demo_lib (format demo_frame) (width demo_frame)
      (height demo_frame)) \<le> 4"
    by (simp add: demo_worker_defs)
  have dup: "dup_frame demo_lib demo_frame [] = (p, h1)" by (simp add: p_def h1_def)
  have live: "set (real_ptrs p) \<subseteq> fst ` set h2" by (simp add: rp h2_def)
  have f: "filter (\<lambda>b. fst b \<notin> set (real_ptrs p)) h2 = [(4096, 100)]"
    by (simp add: rp h2_def)
  note c = dup_frame_release_frees_and_restores [OF demo_malloc_fresh pl dup live]
  note c9 = c [THEN conjunct2, THEN conjunct2, THEN conjunct2, THEN conjunct2, THEN conjunct2,
      THEN conjunct2, THEN conjunct2, THEN conjunct2, THEN conjunct1]
  note c11 = c [THEN conjunct2, THEN conjunct2, THEN conjunct2, THEN conjunct2, THEN conjunct2,
      THEN conjunct2, THEN conjunct2, THEN conjunct2, THEN conjunct2, THEN conjunct2]
  have r1: "release_ptr p h2 = Inr (p\<lparr>pointee := demo_frame, use_count := 0\<rparr>, [(4096, 100)])"
    using c9 unfolding f .
  have "0 < count p" by (simp add: cp)
  with c11 have "deleter p (filter (\<lambda>b. fst b \<notin> set (real_ptrs p)) h2)
      = Inl (invalid_free (hd (real_ptrs p)))"
    by (rule mp)
  then have "deleter p [(4096, 100)] = Inl (invalid_free (hd (real_ptrs p)))"
    unfolding f .
  then have r2: "deleter p [(4096, 100)] = Inl (invalid_free 32)"
    by (simp add: rp)
  from demo_malloc_fresh pl rp hh live r1 r2 show ?thesis
    unfolding p_def h1_def h2_def by (intro conjI)
qed

lemma iteration_returns:
  assumes drains: "\<forall>c. 0 \<le> ret (avcodec_decode_video2 lib c None)
      \<and> frame_finished (avcodec_decode_video2 lib c None) \<noteq> 0
      \<longrightarrow> buffered (codec_after (avcodec_decode_video2 lib c None)) < (buffered c :: nat)"
  shows "\<exists>r. iteration lib element st = Some r"
proof (cases "fst element = loop_packet (index_m st)")
  case True
  show ?thesis
  proof (cases "has_CODEC_CAP_DELAY lib (codec_context_m st)")
    case False
    with True show ?thesis by (simp add: iteration_def on_loop_packet_def)
  next
    case cap: True
    from flush_frames_returns [OF drains, of "snd element" st]
    obtain r0 where r0: "flush_frames lib (snd element) st = Some r0" by (elim exE)
    with True cap show ?thesis
      by (cases r0) (simp_all add: iteration_def on_loop_packet_def)
  qed
next
  case False
  then show ?thesis by (simp add: iteration_def Let_def)
qed

lemma run_loop_leaves_on_eof:
  assumes drains: "\<forall>c. 0 \<le> ret (avcodec_decode_video2 lib c None)
      \<and> frame_finished (avcodec_decode_video2 lib c None) \<noteq> 0
      \<longrightarrow> buffered (codec_after (avcodec_decode_video2 lib c None)) < (buffered c :: nat)"
  shows "(eof_packet (index_m st), tk) \<in> set elements
    \<Longrightarrow> \<exists>r. run_loop lib elements st = Some r \<and> (\<forall>s. r \<noteq> continue_loop s)"
proof (induction elements arbitrary: st)
  case Nil
  then show ?case by simp
next
  case (Cons element elements)
  show ?case
  proof (cases "stream_index (fst element) \<noteq> index_m st")
    case True
    then have "element \<noteq> (eof_packet (index_m st), tk)" by auto
    with Cons.prems have "(eof_packet (index_m st), tk) \<in> set elements" by simp
    from Cons.IH [OF this] True show ?thesis by simp
  next
    case False
    from iteration_returns [OF drains, of element st]
    obtain r0 where r0: "iteration lib element st = Some r0" by (elim exE)
    show ?thesis
    proof (cases r0)
      case (continue_loop st1)
      have "element \<noteq> (eof_packet (index_m st), tk)"
      proof
        assume "element = (eof_packet (index_m st), tk)"
        with r0 continue_loop show False by (simp add: iteration_def)
      qed
      with Cons.prems have "(eof_packet (index_m st), tk) \<in> set elements" by simp
      moreover from iteration_index [OF r0] continue_loop have "index_m st1 = index_m st" by simp
      ultimately have "(eof_packet (index_m st1), tk) \<in> set elements" by simp
      from Cons.IH [OF this] False r0 continue_loop show ?thesis by simp
    next
      case (break_loop s)
      with False r0 show ?thesis by simp
    next
      case (thrown s)
      with False r0 show ?thesis by simp
    qed
  qed
qed

lemma run_returns_on_eof:
  assumes drains: "\<forall>c. 0 \<le> ret (avcodec_decode_video2 lib c None)
      \<and> frame_finished (avcodec_decode_video2 lib c None) \<noteq> 0
      \<longrightarrow> buffered (codec_after (avcodec_decode_video2 lib c None)) < (buffered c :: nat)"
    and eof: "(eof_packet (index_m st), tk) \<in> set elements"
  shows "\<exists>st'. run lib elements st = Some (finished st')"
proof -
  from run_loop_leaves_on_eof [OF drains eof]
  obtain r where r: "run_loop lib elements st = Some r" and nc: "\<forall>s. r \<noteq> continue_loop s"
    by (elim exE conjE)
  then show ?thesis by (cases r) (simp_all add: run_def)
qed


end
